theory Spec2Isabelle
  imports Complex_Main
begin

section \<open>JavaScript numbers\<close>

text \<open>
  The simulator (\<^verbatim>\<open>src/app.js\<close>) computes with JavaScript Numbers: IEEE-754 doubles.
  A Number is a finite value, one of the two infinities, or NaN. The two zeros are
  identified: the program never divides by a zero it has not excluded, so their sign
  is not observable in what is modelled here.

  Every arithmetic operation of the language computes the exact result and rounds it to a
  Number. The rounding is the field \<open>rnd\<close> of an \<open>arith\<close>: it maps the exact real result
  to the Number the machine delivers (an infinity on overflow). \<open>Math.pow\<close> on finite
  non-zero arguments is "implementation-approximated" in ECMAScript; it is the field
  \<open>pow_approx\<close>. The program is modelled once, over an arbitrary \<open>arith\<close>; two
  arithmetics are then defined: \<open>exact\<close> (no rounding: the mathematical reading of the
  formulas) and \<open>ieee_double\<close> (round to nearest, ties to even, 53-bit significand).
\<close>

datatype number = Fin real | PInf | NInf | NaN

record arith =
  rnd :: "real \<Rightarrow> number"
  pow_approx :: "real \<Rightarrow> real \<Rightarrow> number"

fun js_neg :: "number \<Rightarrow> number" where
  "js_neg (Fin x) = Fin (- x)"
| "js_neg PInf = NInf"
| "js_neg NInf = PInf"
| "js_neg NaN = NaN"

text \<open>\<open>a + b\<close> (Number::add).\<close>

fun js_add :: "arith \<Rightarrow> number \<Rightarrow> number \<Rightarrow> number" where
  "js_add ar NaN b = NaN"
| "js_add ar a NaN = NaN"
| "js_add ar PInf NInf = NaN"
| "js_add ar NInf PInf = NaN"
| "js_add ar PInf b = PInf"
| "js_add ar NInf b = NInf"
| "js_add ar a PInf = PInf"
| "js_add ar a NInf = NInf"
| "js_add ar (Fin x) (Fin y) = rnd ar (x + y)"

text \<open>\<open>a - b\<close> (Number::subtract is addition of the negation).\<close>

definition js_sub :: "arith \<Rightarrow> number \<Rightarrow> number \<Rightarrow> number" where
  "js_sub ar a b = js_add ar a (js_neg b)"

text \<open>The infinity of a given sign (\<open>True\<close>: positive).\<close>

definition inf_of :: "bool \<Rightarrow> number" where
  "inf_of positive = (if positive then PInf else NInf)"

text \<open>\<open>a * b\<close> (Number::multiply): infinity times zero is NaN.\<close>

fun js_mul :: "arith \<Rightarrow> number \<Rightarrow> number \<Rightarrow> number" where
  "js_mul ar NaN b = NaN"
| "js_mul ar a NaN = NaN"
| "js_mul ar PInf PInf = PInf"
| "js_mul ar PInf NInf = NInf"
| "js_mul ar NInf PInf = NInf"
| "js_mul ar NInf NInf = PInf"
| "js_mul ar PInf (Fin y) = (if y = 0 then NaN else inf_of (0 < y))"
| "js_mul ar NInf (Fin y) = (if y = 0 then NaN else inf_of (y < 0))"
| "js_mul ar (Fin x) PInf = (if x = 0 then NaN else inf_of (0 < x))"
| "js_mul ar (Fin x) NInf = (if x = 0 then NaN else inf_of (x < 0))"
| "js_mul ar (Fin x) (Fin y) = rnd ar (x * y)"

text \<open>
  \<open>a / b\<close> (Number::divide). A zero divisor is taken as \<open>+0\<close>; the program guards both of
  its divisions by a variable against zero, and its other divisors are the literal 100.
\<close>

fun js_div :: "arith \<Rightarrow> number \<Rightarrow> number \<Rightarrow> number" where
  "js_div ar NaN b = NaN"
| "js_div ar a NaN = NaN"
| "js_div ar PInf PInf = NaN"
| "js_div ar PInf NInf = NaN"
| "js_div ar NInf PInf = NaN"
| "js_div ar NInf NInf = NaN"
| "js_div ar PInf (Fin y) = inf_of (0 \<le> y)"
| "js_div ar NInf (Fin y) = inf_of (y < 0)"
| "js_div ar (Fin x) PInf = Fin 0"
| "js_div ar (Fin x) NInf = Fin 0"
| "js_div ar (Fin x) (Fin y) =
     (if y = 0 then (if x = 0 then NaN else inf_of (0 < x)) else rnd ar (x / y))"

text \<open>\<open>a <= b\<close> and \<open>a < b\<close>: false as soon as an operand is NaN.\<close>

fun js_le :: "number \<Rightarrow> number \<Rightarrow> bool" where
  "js_le NaN b = False"
| "js_le a NaN = False"
| "js_le NInf b = True"
| "js_le a PInf = True"
| "js_le PInf b = False"
| "js_le a NInf = False"
| "js_le (Fin x) (Fin y) = (x \<le> y)"

fun js_lt :: "number \<Rightarrow> number \<Rightarrow> bool" where
  "js_lt NaN b = False"
| "js_lt a NaN = False"
| "js_lt PInf b = False"
| "js_lt a NInf = False"
| "js_lt NInf b = True"
| "js_lt a PInf = True"
| "js_lt (Fin x) (Fin y) = (x < y)"

text \<open>\<open>a !== b\<close> on Numbers: NaN differs from everything, itself included.\<close>

definition js_neq :: "number \<Rightarrow> number \<Rightarrow> bool" where
  "js_neq a b = (a = NaN \<or> b = NaN \<or> a \<noteq> b)"

text \<open>\<open>Math.abs\<close>, \<open>Number.isFinite\<close>.\<close>

fun js_abs :: "number \<Rightarrow> number" where
  "js_abs (Fin x) = Fin \<bar>x\<bar>"
| "js_abs PInf = PInf"
| "js_abs NInf = PInf"
| "js_abs NaN = NaN"

fun isFinite :: "number \<Rightarrow> bool" where
  "isFinite (Fin x) = True"
| "isFinite a = False"

text \<open>
  \<open>Math.round\<close>: the nearest integer, a tie going up (towards \<open>+\<infinity>\<close>); the result is an
  integer, which the operation delivers without rounding error.
\<close>

fun js_round :: "number \<Rightarrow> number" where
  "js_round (Fin x) = Fin (of_int \<lfloor>x + 1 / 2\<rfloor>)"
| "js_round a = a"

text \<open>
  \<open>Math.pow\<close> (Number::exponentiate), case by case as ECMAScript lists them; only the
  last case, finite non-zero base and finite non-zero exponent, is left to the
  implementation's approximation.
\<close>

definition is_integral :: "real \<Rightarrow> bool" where
  "is_integral y = (of_int \<lfloor>y\<rfloor> = y)"

definition is_odd_integer :: "real \<Rightarrow> bool" where
  "is_odd_integer y = (is_integral y \<and> odd \<lfloor>y\<rfloor>)"

fun js_pow :: "arith \<Rightarrow> number \<Rightarrow> number \<Rightarrow> number" where
  "js_pow ar b NaN = NaN"
| "js_pow ar b (Fin y) =
     (if y = 0 then Fin 1
      else case b of
        NaN \<Rightarrow> NaN
      | PInf \<Rightarrow> (if 0 < y then PInf else Fin 0)
      | NInf \<Rightarrow> (if 0 < y then (if is_odd_integer y then NInf else PInf) else Fin 0)
      | Fin x \<Rightarrow>
          (if x = 0 then (if 0 < y then Fin 0 else PInf)
           else if x < 0 \<and> \<not> is_integral y then NaN
           else pow_approx ar x y))"
| "js_pow ar b PInf =
     (case b of
        NaN \<Rightarrow> NaN
      | PInf \<Rightarrow> PInf
      | NInf \<Rightarrow> PInf
      | Fin x \<Rightarrow>
          (if x = 0 then Fin 0
           else if 1 < \<bar>x\<bar> then PInf else if \<bar>x\<bar> = 1 then NaN else Fin 0))"
| "js_pow ar b NInf =
     (case b of
        NaN \<Rightarrow> NaN
      | PInf \<Rightarrow> Fin 0
      | NInf \<Rightarrow> Fin 0
      | Fin x \<Rightarrow>
          (if x = 0 then PInf
           else if 1 < \<bar>x\<bar> then Fin 0 else if \<bar>x\<bar> = 1 then NaN else PInf))"

subsection \<open>Exact arithmetic\<close>

text \<open>No rounding: every operation on finite values returns the mathematical result.\<close>

definition exact_pow :: "real \<Rightarrow> real \<Rightarrow> number" where
  "exact_pow x y = Fin (if is_integral y then x powi \<lfloor>y\<rfloor> else x powr y)"

definition exact :: arith where
  "exact = \<lparr>rnd = Fin, pow_approx = exact_pow\<rparr>"

subsection \<open>Double precision\<close>

text \<open>
  Round to nearest, ties to even, in binary64: 53 significant bits, exponents from
  \<open>-1022\<close> (below it the spacing stays \<open>2 powi -1074\<close>: gradual underflow) to \<open>1023\<close>
  (a rounded magnitude of \<open>2 ^ 1024\<close> or more is an infinity).
\<close>

definition round_even :: "real \<Rightarrow> int" where
  "round_even x =
     (let f = \<lfloor>x\<rfloor>; d = x - of_int f
      in if d < 1 / 2 then f else if 1 / 2 < d then f + 1 else if even f then f else f + 1)"

definition ulp_exponent :: "real \<Rightarrow> int" where
  "ulp_exponent x = max \<lfloor>log 2 \<bar>x\<bar>\<rfloor> (- 1022) - 52"

text \<open>The value on the grid of the exponent of \<open>x\<close> nearest to \<open>x\<close>.\<close>

definition nearest :: "real \<Rightarrow> real" where
  "nearest x = of_int (round_even (x / 2 powi ulp_exponent x)) * 2 powi ulp_exponent x"

definition binary64 :: "real \<Rightarrow> number" where
  "binary64 x = (if 2 ^ 1024 \<le> \<bar>nearest x\<bar> then inf_of (0 < x) else Fin (nearest x))"

text \<open>
  \<open>Math.pow\<close> taken as correctly rounded. An engine may be off by a unit in the last
  place; of the powers of \<open>ieee_double\<close> the statements below use only that a power of 1
  is 1 and the bounds of an ordered arithmetic (\<open>ordered_arith\<close>).
\<close>

definition ieee_double :: arith where
  "ieee_double =
     \<lparr>rnd = binary64,
      pow_approx = (\<lambda>x y. case exact_pow x y of Fin z \<Rightarrow> binary64 z | v \<Rightarrow> v)\<rparr>"

section \<open>The financial core of \<^verbatim>\<open>src/app.js\<close>\<close>

text \<open>\<^verbatim>\<open>calculateNetAnnualReturn\<close> (lines 9-13).\<close>

definition calculateNetAnnualReturn :: "arith \<Rightarrow> number \<Rightarrow> number \<Rightarrow> number" where
  "calculateNetAnnualReturn ar grossAnnualRate annualFeeRate =
     (let grossFactor = js_add ar (Fin 1) (js_div ar grossAnnualRate (Fin 100));
          feeFactor = js_sub ar (Fin 1) (js_div ar annualFeeRate (Fin 100))
      in js_sub ar (js_mul ar grossFactor feeFactor) (Fin 1))"

text \<open>\<^verbatim>\<open>calculateMonthlyRate\<close> (lines 20-27).\<close>

definition calculateMonthlyRate :: "arith \<Rightarrow> number \<Rightarrow> number" where
  "calculateMonthlyRate ar netAnnualRate =
     (let base = js_add ar (Fin 1) netAnnualRate
      in if js_le base (Fin 0) then Fin (- 1)
         else js_sub ar (js_pow ar base (js_div ar (Fin 1) (Fin 12))) (Fin 1))"

record params =
  initialCapital :: number
  monthlyContribution :: number
  grossAnnualReturn :: number
  annualFee :: number
  annualInflation :: number
  years :: number

text \<open>One row of the monthly series (the object pushed in the loop).\<close>

record entry =
  month :: int
  totalContributed :: number
  interestAccumulated :: number
  totalValue :: number

text \<open>
  The summary object. Its key \<^verbatim>\<open>totalContributed\<close> holds the local \<^verbatim>\<open>totalContributions\<close>;
  the field bears that name here, \<open>totalContributed\<close> being a field of the entries.
\<close>

record summary =
  netAnnualRate :: number
  monthlyRate :: number
  totalMonths :: number
  futureValue :: number
  futureValueReal :: number
  totalContributions :: number
  totalGrowth :: number

record result =
  series :: "entry list"
  summary :: summary

text \<open>
  The body of the \<^verbatim>\<open>for\<close> loop (lines 59-74) on the loop state
  \<open>(balance, totalContributed, series)\<close>, for the monthly rate \<open>r\<close>, the monthly
  contribution \<open>c\<close> and the counter \<open>m\<close> (\<^verbatim>\<open>month\<close>).
\<close>

definition loopBody ::
  "arith \<Rightarrow> number \<Rightarrow> number \<Rightarrow> int \<Rightarrow> number \<times> number \<times> entry list
     \<Rightarrow> number \<times> number \<times> entry list" where
  "loopBody ar r c m st =
     (let (balance, totalContributed, series) = st;
          balance1 = (if js_neq r (Fin 0) then js_mul ar balance (js_add ar (Fin 1) r)
                      else balance);
          balance2 = js_add ar balance1 c;
          totalContributed2 = js_add ar totalContributed c;
          interestAccumulated = js_sub ar balance2 totalContributed2
      in (balance2, totalContributed2,
          series @ [\<lparr>month = m, totalContributed = totalContributed2,
                      interestAccumulated = interestAccumulated, totalValue = balance2\<rparr>]))"

text \<open>
  The loop \<^verbatim>\<open>for (let month = 1; month <= totalMonths; month += 1)\<close>. The counter takes the
  values 1, 2, 3, ..., kept here as an integer: in double precision the integers are exact
  up to \<open>2 ^ 53\<close>, more rounds than an array has room for. With \<open>totalMonths = +\<infinity>\<close> the
  condition never fails and the loop does not return: the value \<open>None\<close>.
\<close>

partial_function (option) monthLoop ::
  "arith \<Rightarrow> number \<Rightarrow> number \<Rightarrow> number \<Rightarrow> int \<Rightarrow> number \<times> number \<times> entry list
     \<Rightarrow> (number \<times> number \<times> entry list) option" where
  "monthLoop ar r c n m st =
     (if js_le (Fin (of_int m)) n
      then monthLoop ar r c n (m + 1) (loopBody ar r c m st)
      else Some st)"

text \<open>The closed form of lines 78-81, and the choice of lines 83-87.\<close>

definition futureValueFormula :: "arith \<Rightarrow> number \<Rightarrow> number \<Rightarrow> number \<Rightarrow> number \<Rightarrow> number" where
  "futureValueFormula ar P c r n =
     (let growthFactor = js_pow ar (js_add ar (Fin 1) r) n
      in if js_lt (js_abs r) (rnd ar (1 / 10 ^ 12))
         then js_add ar P (js_mul ar c n)
         else js_add ar (js_mul ar P growthFactor)
                (js_mul ar c (js_div ar (js_sub ar growthFactor (Fin 1)) r)))"

definition chooseFutureValue :: "number \<Rightarrow> entry list \<Rightarrow> number \<Rightarrow> number" where
  "chooseFutureValue formula rows P =
     (if isFinite formula then formula
      else if 0 < length rows then totalValue (rows ! (length rows - 1))
      else P)"

text \<open>\<^verbatim>\<open>generateMonthlySeries\<close> (lines 40-106).\<close>

definition generateMonthlySeries :: "arith \<Rightarrow> params \<Rightarrow> result option" where
  "generateMonthlySeries ar p =
     (let netAnnualRate = calculateNetAnnualReturn ar (grossAnnualReturn p) (annualFee p);
          monthlyRate = calculateMonthlyRate ar netAnnualRate;
          totalMonths = js_round (js_mul ar (years p) (Fin 12))
      in case monthLoop ar monthlyRate (monthlyContribution p) totalMonths 1
                (initialCapital p, initialCapital p, []) of
           None \<Rightarrow> None
         | Some st \<Rightarrow>
             let (balance, totalContributed, series) = st;
                 formula = futureValueFormula ar (initialCapital p) (monthlyContribution p)
                             monthlyRate totalMonths;
                 futureValue = chooseFutureValue formula series (initialCapital p);
                 totalContributions = js_add ar (initialCapital p)
                                        (js_mul ar (monthlyContribution p) totalMonths);
                 totalGrowth = js_sub ar futureValue totalContributions;
                 inflationFactor = js_pow ar (js_add ar (Fin 1)
                                      (js_div ar (annualInflation p) (Fin 100))) (years p);
                 futureValueReal = (if js_neq inflationFactor (Fin 0)
                                    then js_div ar futureValue inflationFactor else futureValue)
             in Some \<lparr>series = series,
                      summary = \<lparr>netAnnualRate = netAnnualRate, monthlyRate = monthlyRate,
                                  totalMonths = totalMonths, futureValue = futureValue,
                                  futureValueReal = futureValueReal,
                                  totalContributions = totalContributions,
                                  totalGrowth = totalGrowth\<rparr>\<rparr>)"

text \<open>Lines 50-52 and 91 on their own: the monthly rate, the month count, the inflation factor.\<close>

definition monthlyRateOf :: "arith \<Rightarrow> params \<Rightarrow> number" where
  "monthlyRateOf ar p =
     calculateMonthlyRate ar (calculateNetAnnualReturn ar (grossAnnualReturn p) (annualFee p))"

definition totalMonthsOf :: "arith \<Rightarrow> params \<Rightarrow> number" where
  "totalMonthsOf ar p = js_round (js_mul ar (years p) (Fin 12))"

definition inflationFactorOf :: "arith \<Rightarrow> params \<Rightarrow> number" where
  "inflationFactorOf ar p =
     js_pow ar (js_add ar (Fin 1) (js_div ar (annualInflation p) (Fin 100))) (years p)"

section \<open>The recurrence of the specification\<close>

text \<open>
  These follow the words of the specification, not the code: the balance starts at the
  initial capital \<open>P\<close> and is, each month, multiplied by \<open>1 + r\<close> and then increased by
  the contribution \<open>c\<close>; the contributed total starts at \<open>P\<close> and grows by \<open>c\<close>; entry
  \<open>k\<close> records the month, the contributed total, the difference and the balance.
\<close>

primrec balanceAfter :: "arith \<Rightarrow> number \<Rightarrow> number \<Rightarrow> number \<Rightarrow> nat \<Rightarrow> number" where
  "balanceAfter ar P c r 0 = P"
| "balanceAfter ar P c r (Suc k) =
     js_add ar (js_mul ar (balanceAfter ar P c r k) (js_add ar (Fin 1) r)) c"

primrec contributedAfter :: "arith \<Rightarrow> number \<Rightarrow> number \<Rightarrow> nat \<Rightarrow> number" where
  "contributedAfter ar P c 0 = P"
| "contributedAfter ar P c (Suc k) = js_add ar (contributedAfter ar P c k) c"

definition seriesEntry :: "arith \<Rightarrow> number \<Rightarrow> number \<Rightarrow> number \<Rightarrow> nat \<Rightarrow> entry" where
  "seriesEntry ar P c r k =
     \<lparr>month = int k, totalContributed = contributedAfter ar P c k,
      interestAccumulated = js_sub ar (balanceAfter ar P c r k) (contributedAfter ar P c k),
      totalValue = balanceAfter ar P c r k\<rparr>"

section \<open>Auxiliary notions\<close>

text \<open>\<open>k\<close> rounds of the loop body from counter \<open>m\<close>: what the loop computes when it ends.\<close>

fun iterate_months ::
  "arith \<Rightarrow> number \<Rightarrow> number \<Rightarrow> int \<Rightarrow> nat \<Rightarrow> number \<times> number \<times> entry list
     \<Rightarrow> number \<times> number \<times> entry list" where
  "iterate_months ar r c m 0 st = st"
| "iterate_months ar r c m (Suc k) st = iterate_months ar r c (m + 1) k (loopBody ar r c m st)"

text \<open>
  A value is a Number of the arithmetic when rounding leaves it alone. A rounding is sound
  when it delivers Numbers and 1 is one of them. An arithmetic is ordered when in addition
  its rounding is monotone and leaves 0 and \<open>-1\<close> alone, and its \<open>Math.pow\<close> on a positive
  base is not negative and lies on the side of 1 where the power lies. Both \<open>exact\<close> and
  \<open>ieee_double\<close> are ordered (\<open>ordered_arith_exact\<close>, \<open>ordered_arith_ieee_double\<close> below).
\<close>

definition representable :: "arith \<Rightarrow> number \<Rightarrow> bool" where
  "representable ar v = (case v of Fin x \<Rightarrow> rnd ar x = Fin x | _ \<Rightarrow> True)"

definition sound_rounding :: "arith \<Rightarrow> bool" where
  "sound_rounding ar = (rnd ar 1 = Fin 1 \<and> (\<forall>x. representable ar (rnd ar x)))"

definition ordered_arith :: "arith \<Rightarrow> bool" where
  "ordered_arith ar =
     (sound_rounding ar \<and> rnd ar 0 = Fin 0 \<and> rnd ar (- 1) = Fin (- 1) \<and>
      (\<forall>x y. x \<le> y \<longrightarrow> js_le (rnd ar x) (rnd ar y)) \<and>
      (\<forall>x y. 0 < x \<longrightarrow> js_le (Fin 0) (pow_approx ar x y)) \<and>
      (\<forall>x y. 1 \<le> x \<and> 0 < y \<longrightarrow> js_le (Fin 1) (pow_approx ar x y)) \<and>
      (\<forall>x y. 0 < x \<and> x \<le> 1 \<and> 0 < y \<longrightarrow> js_le (pow_approx ar x y) (Fin 1)))"

text \<open>
  Accuracy. A real number is ordinary when it is zero or neither underflows nor overflows:
  its magnitude lies between \<open>2 powi -1022\<close> and \<open>2 ^ 1023\<close>. An arithmetic is accurate when
  it is ordered and, on an ordinary exact result, its rounding errs by at most one part in
  \<open>2 ^ 53\<close> (half a unit in the last place) and its \<open>Math.pow\<close> on a positive base by at
  most one part in \<open>2 ^ 52\<close> (a unit in the last place: it need not be correctly rounded).
  Both \<open>exact\<close> and \<open>ieee_double\<close> are accurate (\<open>accurate_exact\<close>,
  \<open>accurate_ieee_double\<close> below).
\<close>

definition ordinary :: "real \<Rightarrow> bool" where
  "ordinary x = (x = 0 \<or> (1 / 2 ^ 1022 \<le> \<bar>x\<bar> \<and> \<bar>x\<bar> \<le> 2 ^ 1023))"

definition close_to :: "real \<Rightarrow> real \<Rightarrow> number \<Rightarrow> bool" where
  "close_to u x v = (\<exists>y. v = Fin y \<and> \<bar>y - x\<bar> \<le> u * \<bar>x\<bar>)"

definition accurate :: "arith \<Rightarrow> bool" where
  "accurate ar =
     (ordered_arith ar \<and>
      (\<forall>x. ordinary x \<longrightarrow> close_to (1 / 2 ^ 53) x (rnd ar x)) \<and>
      (\<forall>x y. 0 < x \<and> ordinary (x powr y) \<longrightarrow>
         close_to (1 / 2 ^ 52) (x powr y) (pow_approx ar x y)))"

text \<open>
  Sizes and error bounds, for the comparison of the loop with the closed form.
  \<open>sized a b x\<close>: \<open>x\<close> is zero or lies between \<open>a\<close> and \<open>b\<close>. \<open>between lo hi x y\<close>: \<open>y\<close>
  lies between \<open>lo * x\<close> and \<open>hi * x\<close>. \<open>roundoff\<close> is the relative error of one rounding,
  \<open>drift r\<close> the bound on the relative error of the quotient
  \<open>(growthFactor - 1) / monthlyRate\<close> at the monthly rate \<open>r\<close>: the error of the growth
  factor, magnified by \<open>1 / \<bar>r\<bar>\<close>.
\<close>

definition sized :: "real \<Rightarrow> real \<Rightarrow> real \<Rightarrow> bool" where
  "sized a b x = (x = 0 \<or> (a \<le> x \<and> x \<le> b))"

definition between :: "real \<Rightarrow> real \<Rightarrow> real \<Rightarrow> real \<Rightarrow> bool" where
  "between lo hi x y = (lo * x \<le> y \<and> y \<le> hi * x)"

definition roundoff :: real where
  "roundoff = 1 / 2 ^ 53"

definition drift :: "real \<Rightarrow> real" where
  "drift r = 5 * (1 + 1 / \<bar>r\<bar>) * roundoff"

text \<open>
  The recurrence over the reals with the multiplier \<open>q\<close>:
  \<open>growth_sum q k = 1 + q + ... + q ^ (k - 1)\<close>, and the balance after \<open>k\<close> months.
\<close>

primrec growth_sum :: "real \<Rightarrow> nat \<Rightarrow> real" where
  "growth_sum q 0 = 0"
| "growth_sum q (Suc k) = growth_sum q k * q + 1"

definition reference_balance :: "real \<Rightarrow> real \<Rightarrow> real \<Rightarrow> nat \<Rightarrow> real" where
  "reference_balance P c q k = P * q ^ k + c * growth_sum q k"

text \<open>
  The form validation of the page (\<^verbatim>\<open>validateInputs\<close>, lines 159-187): the list of the
  fields in error. The page calls \<^verbatim>\<open>generateMonthlySeries\<close> only when it is empty; an
  input is valid when it is.
\<close>

fun isInteger :: "number \<Rightarrow> bool" where
  "isInteger (Fin x) = is_integral x"
| "isInteger v = False"

definition validateInputs :: "params \<Rightarrow> string list" where
  "validateInputs values =
     (if \<not> isFinite (initialCapital values) \<or> js_lt (initialCapital values) (Fin 0)
      then [''initialCapital''] else []) @
     (if \<not> isFinite (monthlyContribution values) \<or> js_lt (monthlyContribution values) (Fin 0)
      then [''monthlyContribution''] else []) @
     (if \<not> isFinite (grossAnnualReturn values) then [''grossReturn''] else []) @
     (if \<not> isFinite (annualFee values) \<or> js_lt (annualFee values) (Fin 0)
      then [''annualFee''] else []) @
     (if \<not> isFinite (annualInflation values) \<or> js_lt (annualInflation values) (Fin 0)
      then [''inflation''] else []) @
     (if \<not> isFinite (years values) \<or> js_lt (years values) (Fin 1) \<or>
         js_lt (Fin 50) (years values) \<or> \<not> isInteger (years values)
      then [''years''] else [])"

text \<open>The two future values of the summary, when the function returns.\<close>

definition futureValueOf :: "arith \<Rightarrow> params \<Rightarrow> number option" where
  "futureValueOf ar p = map_option (futureValue \<circ> summary) (generateMonthlySeries ar p)"

definition futureValueRealOf :: "arith \<Rightarrow> params \<Rightarrow> number option" where
  "futureValueRealOf ar p = map_option (futureValueReal \<circ> summary) (generateMonthlySeries ar p)"

text \<open>Inputs used in the examples.\<close>

definition scenario_zero_rate :: params where
  "scenario_zero_rate =
     \<lparr>initialCapital = Fin 1000, monthlyContribution = Fin 100, grossAnnualReturn = Fin 0,
      annualFee = Fin 0, annualInflation = Fin 0, years = Fin 2\<rparr>"

definition scenario_inflation :: params where
  "scenario_inflation =
     \<lparr>initialCapital = Fin 1000, monthlyContribution = Fin 100, grossAnnualReturn = Fin 0,
      annualFee = Fin 0, annualInflation = Fin 2, years = Fin 2\<rparr>"

definition scenario_doubling :: params where
  "scenario_doubling =
     \<lparr>initialCapital = Fin 1, monthlyContribution = Fin 1, grossAnnualReturn = Fin 409500,
      annualFee = Fin 0, annualInflation = Fin 0, years = Fin 1\<rparr>"

definition scenario_nothing_invested :: params where
  "scenario_nothing_invested =
     \<lparr>initialCapital = Fin 0, monthlyContribution = Fin 0, grossAnnualReturn = Fin 0,
      annualFee = Fin 0, annualInflation = Fin 2, years = Fin 2\<rparr>"

definition scenario_negative_years :: params where
  "scenario_negative_years =
     \<lparr>initialCapital = Fin 1, monthlyContribution = Fin 1, grossAnnualReturn = Fin (- 100),
      annualFee = Fin 0, annualInflation = Fin 0, years = Fin (- 1)\<rparr>"

definition scenario_withdrawn_years :: params where
  "scenario_withdrawn_years =
     \<lparr>initialCapital = Fin 0, monthlyContribution = Fin 1, grossAnnualReturn = Fin 0,
      annualFee = Fin 0, annualInflation = Fin 0, years = Fin (- 1)\<rparr>"

definition scenario_large_capital :: params where
  "scenario_large_capital =
     \<lparr>initialCapital = Fin (2 ^ 60), monthlyContribution = Fin 1,
      grossAnnualReturn = Fin (- 100), annualFee = Fin 0, annualInflation = Fin 0,
      years = Fin 1\<rparr>"

definition scenario_tiny_inflation :: params where
  "scenario_tiny_inflation =
     \<lparr>initialCapital = Fin 0, monthlyContribution = Fin 1, grossAnnualReturn = Fin (- 100),
      annualFee = Fin 0, annualInflation = Fin (100 / 2 ^ 60), years = Fin 1\<rparr>"

definition scenario_extreme_fee :: params where
  "scenario_extreme_fee =
     \<lparr>initialCapital = Fin 0, monthlyContribution = Fin 1,
      grossAnnualReturn = Fin (- (100 * 2 ^ 1000)), annualFee = Fin (100 * 2 ^ 1000),
      annualInflation = Fin 0, years = Fin 1\<rparr>"

definition scenario_underflow :: params where
  "scenario_underflow =
     \<lparr>initialCapital = Fin (2 ^ 1000), monthlyContribution = Fin 0,
      grossAnnualReturn = Fin (- 100 + 100 / 2 ^ 24), annualFee = Fin 0, annualInflation = Fin 0,
      years = Fin 50\<rparr>"

definition scenario_quarter :: params where
  "scenario_quarter =
     \<lparr>initialCapital = Fin 1000, monthlyContribution = Fin 100,
      grossAnnualReturn = Fin (- 100 + 100 / 2 ^ 24), annualFee = Fin 0, annualInflation = Fin 0,
      years = Fin 1\<rparr>"

definition scenario_high_inflation :: params where
  "scenario_high_inflation =
     \<lparr>initialCapital = Fin 1000, monthlyContribution = Fin 200, grossAnnualReturn = Fin 5,
      annualFee = Fin (1 / 2), annualInflation = Fin 15, years = Fin 5\<rparr>"

definition scenario_subnormal :: params where
  "scenario_subnormal =
     \<lparr>initialCapital = Fin (1 / 2 ^ 1074), monthlyContribution = Fin 0, grossAnnualReturn = Fin 0,
      annualFee = Fin 0, annualInflation = Fin 2, years = Fin 2\<rparr>"

section \<open>The loop and the result\<close>

lemma isFinite_iff: "isFinite v \<longleftrightarrow> (\<exists>x. v = Fin x)"
  by (cases v) auto

lemma js_lt_PInf [simp]: "js_lt PInf v = False"
  by (cases v) simp_all

lemma nonneg_iff: "js_le (Fin 0) v \<longleftrightarrow> (\<exists>x. v = Fin x \<and> 0 \<le> x) \<or> v = PInf"
  by (cases v) auto

lemma js_add_finite:
  "js_add ar a b = Fin v \<Longrightarrow> \<exists>x y. a = Fin x \<and> b = Fin y \<and> rnd ar (x + y) = Fin v"
  by (cases a; cases b) simp_all

lemma js_mul_finite:
  "js_mul ar a b = Fin v \<Longrightarrow> \<exists>x y. a = Fin x \<and> b = Fin y \<and> rnd ar (x * y) = Fin v"
  by (cases a; cases b) (simp_all add: inf_of_def split: if_splits)

lemma js_div_finite_dividend:
  "js_div ar a (Fin y) = Fin v \<Longrightarrow> \<exists>x. a = Fin x \<and> y \<noteq> 0 \<and> rnd ar (x / y) = Fin v"
  by (cases a) (simp_all add: inf_of_def split: if_splits)

lemma monthLoop_exit: "\<not> js_le (Fin (of_int m)) n \<Longrightarrow> monthLoop ar r c n m st = Some st"
  by (subst monthLoop.simps) simp

lemma monthLoop_finite:
  "monthLoop ar r c (Fin t) m st = Some (iterate_months ar r c m (nat (\<lfloor>t\<rfloor> - m + 1)) st)"
proof (induction "nat (\<lfloor>t\<rfloor> - m + 1)" arbitrary: m st)
  case 0
  then have "\<not> of_int m \<le> t" using le_floor_iff[of m t] by linarith
  with 0 show ?case by (simp add: monthLoop_exit)
next
  case (Suc k)
  then have le: "of_int m \<le> t" using le_floor_iff[of m t] by linarith
  have k: "k = nat (\<lfloor>t\<rfloor> - (m + 1) + 1)" using Suc.hyps(2) by linarith
  have eq: "nat (\<lfloor>t\<rfloor> - m + 1) = Suc k" using Suc.hyps(2) by simp
  have "monthLoop ar r c (Fin t) m st
          = monthLoop ar r c (Fin t) (m + 1) (loopBody ar r c m st)"
    using le by (subst monthLoop.simps) simp
  also have "\<dots> = Some (iterate_months ar r c (m + 1) k (loopBody ar r c m st))"
    using Suc.hyps(1)[OF k] k by simp
  finally show ?case by (simp add: eq)
qed

text \<open>With \<open>totalMonths = +\<infinity>\<close> the loop does not return.\<close>

lemma monthLoop_Some_not_PInf: "monthLoop ar r c n m st = Some y \<Longrightarrow> n \<noteq> PInf"
  by (rule monthLoop.raw_induct[where P = "\<lambda>ar r c n m st y. n \<noteq> PInf"])
     (auto split: if_splits)

lemma monthLoop_PInf: "monthLoop ar r c PInf m st = None"
  using monthLoop_Some_not_PInf[of ar r c PInf m st] by (cases "monthLoop ar r c PInf m st") auto

lemma monthLoop_returns: "n \<noteq> PInf \<Longrightarrow> \<exists>st'. monthLoop ar r c n m st = Some st'"
  by (cases n) (simp_all only: monthLoop_finite monthLoop_exit js_le.simps not_False_eq_True, blast+)

lemma generateMonthlySeries_Some:
  assumes "generateMonthlySeries ar p = Some res"
  shows "\<exists>b t. monthLoop ar (monthlyRateOf ar p) (monthlyContribution p) (totalMonthsOf ar p) 1
                  (initialCapital p, initialCapital p, []) = Some (b, t, series res)"
    and "monthlyRate (summary res) = monthlyRateOf ar p"
    and "totalMonths (summary res) = totalMonthsOf ar p"
    and "futureValue (summary res)
           = chooseFutureValue
               (futureValueFormula ar (initialCapital p) (monthlyContribution p)
                  (monthlyRateOf ar p) (totalMonthsOf ar p))
               (series res) (initialCapital p)"
    and "futureValueReal (summary res)
           = (if js_neq (inflationFactorOf ar p) (Fin 0)
              then js_div ar (futureValue (summary res)) (inflationFactorOf ar p)
              else futureValue (summary res))"
  using assms
  by (auto simp: generateMonthlySeries_def monthlyRateOf_def totalMonthsOf_def
        inflationFactorOf_def Let_def split: option.splits prod.splits)

lemma generateMonthlySeries_returns:
  assumes "monthLoop ar (monthlyRateOf ar p) (monthlyContribution p) (totalMonthsOf ar p) 1
             (initialCapital p, initialCapital p, []) = Some (b, t, rows)"
  shows "\<exists>res. generateMonthlySeries ar p = Some res \<and> series res = rows"
  using assms
  by (simp add: generateMonthlySeries_def monthlyRateOf_def totalMonthsOf_def Let_def)

lemma generateMonthlySeries_total:
  "totalMonthsOf ar p \<noteq> PInf \<Longrightarrow> \<exists>res. generateMonthlySeries ar p = Some res"
proof -
  assume "totalMonthsOf ar p \<noteq> PInf"
  then obtain st where "monthLoop ar (monthlyRateOf ar p) (monthlyContribution p)
      (totalMonthsOf ar p) 1 (initialCapital p, initialCapital p, []) = Some st"
    using monthLoop_returns by blast
  then show ?thesis
    using generateMonthlySeries_returns[of ar p "fst st" "fst (snd st)" "snd (snd st)"] by auto
qed

lemma generateMonthlySeries_diverges:
  "totalMonthsOf ar p = PInf \<Longrightarrow> generateMonthlySeries ar p = None"
  by (simp add: generateMonthlySeries_def monthlyRateOf_def totalMonthsOf_def Let_def monthLoop_PInf)

lemma chooseFutureValue_last:
  "chooseFutureValue formula rows P =
     (if isFinite formula then formula
      else if rows \<noteq> [] then totalValue (last rows) else P)"
  by (simp add: chooseFutureValue_def last_conv_nth)

lemma futureValue_finite_formula:
  assumes "generateMonthlySeries ar p = Some res"
      and "futureValueFormula ar (initialCapital p) (monthlyContribution p)
             (monthlyRateOf ar p) (totalMonthsOf ar p) = Fin v"
  shows "futureValue (summary res) = Fin v"
  using generateMonthlySeries_Some(4)[OF assms(1)] assms(2) by (simp add: chooseFutureValue_def)

lemma series_not_entered:
  assumes "generateMonthlySeries ar p = Some res" "\<not> js_le (Fin 1) (totalMonthsOf ar p)"
  shows "series res = []"
  using generateMonthlySeries_Some(1)[OF assms(1)] assms(2) by (simp add: monthLoop_exit)

text \<open>Every row the loop appends holds the difference of its two other values.\<close>

lemma loopBody_rows:
  "\<exists>b t e. loopBody ar r c m (balance, contributed, rows) = (b, t, rows @ [e]) \<and>
     interestAccumulated e = js_sub ar (totalValue e) (totalContributed e)"
  by (simp add: loopBody_def Let_def)

lemma iterate_months_rows:
  assumes "\<forall>e \<in> set (snd (snd st)). interestAccumulated e = js_sub ar (totalValue e) (totalContributed e)"
  shows "\<forall>e \<in> set (snd (snd (iterate_months ar r c m k st))).
           interestAccumulated e = js_sub ar (totalValue e) (totalContributed e)"
  using assms
proof (induction k arbitrary: m st)
  case 0
  then show ?case by simp
next
  case (Suc k)
  obtain balance contributed rows where st: "st = (balance, contributed, rows)"
    by (cases st) auto
  obtain b t e where step: "loopBody ar r c m st = (b, t, rows @ [e])"
    and e: "interestAccumulated e = js_sub ar (totalValue e) (totalContributed e)"
    using loopBody_rows[of ar r c m balance contributed rows] st by auto
  have "\<forall>e \<in> set (snd (snd (loopBody ar r c m st))).
          interestAccumulated e = js_sub ar (totalValue e) (totalContributed e)"
    using Suc.prems e unfolding step by (auto simp: st)
  from Suc.IH[OF this] show ?case by simp
qed

lemma monthLoop_rows:
  assumes "monthLoop ar r c n 1 (P, P, []) = Some (b, t, rows)"
  shows "\<forall>e \<in> set rows. interestAccumulated e = js_sub ar (totalValue e) (totalContributed e)"
proof (cases n)
  case (Fin x)
  have "\<forall>e \<in> set (snd (snd (iterate_months ar r c 1 (nat (\<lfloor>x\<rfloor> - 1 + 1)) (P, P, [])))).
          interestAccumulated e = js_sub ar (totalValue e) (totalContributed e)"
    by (rule iterate_months_rows) simp
  then show ?thesis using assms by (simp add: Fin monthLoop_finite)
next
  case PInf
  then show ?thesis using assms by (simp add: monthLoop_PInf)
next
  case NInf
  then show ?thesis using assms by (simp add: monthLoop_exit)
next
  case NaN
  then show ?thesis using assms by (simp add: monthLoop_exit)
qed

text \<open>
  The loop against the recurrence. Where the rate is zero the code leaves the balance
  alone and the recurrence multiplies it by \<open>1 + 0\<close>: the same Number, the rounding being
  sound.
\<close>

lemma representable_add: "sound_rounding ar \<Longrightarrow> representable ar (js_add ar a b)"
  by (cases a; cases b) (simp_all add: sound_rounding_def representable_def)

lemma mul_one: "sound_rounding ar \<Longrightarrow> representable ar b \<Longrightarrow> js_mul ar b (js_add ar (Fin 1) (Fin 0)) = b"
  by (cases b) (simp_all add: sound_rounding_def representable_def inf_of_def)

lemma representable_balanceAfter:
  "sound_rounding ar \<Longrightarrow> representable ar P \<Longrightarrow> representable ar (balanceAfter ar P c r k)"
  by (cases k) (simp_all add: representable_add)

lemma loopBody_step:
  assumes "sound_rounding ar" "representable ar P"
  shows "loopBody ar r c (int (Suc k)) (balanceAfter ar P c r k, contributedAfter ar P c k, rows)
           = (balanceAfter ar P c r (Suc k), contributedAfter ar P c (Suc k),
              rows @ [seriesEntry ar P c r (Suc k)])"
proof (cases "js_neq r (Fin 0)")
  case True
  then show ?thesis by (simp add: loopBody_def seriesEntry_def Let_def)
next
  case False
  then have r: "r = Fin 0" by (auto simp: js_neq_def)
  show ?thesis
    using mul_one[OF assms(1) representable_balanceAfter[OF assms, of c r k]]
    by (simp add: loopBody_def seriesEntry_def Let_def r js_neq_def)
qed

lemma iterate_months_series:
  assumes "sound_rounding ar" "representable ar P"
  shows "iterate_months ar r c (int j + 1) k
           (balanceAfter ar P c r j, contributedAfter ar P c j, map (seriesEntry ar P c r) [1..<Suc j])
         = (balanceAfter ar P c r (j + k), contributedAfter ar P c (j + k),
            map (seriesEntry ar P c r) [1..<Suc (j + k)])"
proof (induction k arbitrary: j)
  case 0
  show ?case by simp
next
  case (Suc k)
  let ?f = "seriesEntry ar P c r"
  have rows: "map ?f [1..<Suc (Suc j)] = map ?f [1..<Suc j] @ [?f (Suc j)]"
    by simp
  have m: "int j + 1 = int (Suc j)" by simp
  have step: "loopBody ar r c (int j + 1)
                (balanceAfter ar P c r j, contributedAfter ar P c j, map ?f [1..<Suc j])
              = (balanceAfter ar P c r (Suc j), contributedAfter ar P c (Suc j),
                 map ?f [1..<Suc (Suc j)])"
    unfolding rows m by (rule loopBody_step[OF assms])
  have "iterate_months ar r c (int j + 1) (Suc k)
          (balanceAfter ar P c r j, contributedAfter ar P c j, map ?f [1..<Suc j])
        = iterate_months ar r c (int (Suc j) + 1) k
            (balanceAfter ar P c r (Suc j), contributedAfter ar P c (Suc j),
             map ?f [1..<Suc (Suc j)])"
    by (simp only: iterate_months.simps step[unfolded m] m)
  also have "\<dots> = (balanceAfter ar P c r (Suc j + k), contributedAfter ar P c (Suc j + k),
                      map ?f [1..<Suc (Suc j + k)])"
    by (rule Suc.IH)
  finally show ?case by simp
qed

lemma iterate_months_from_start:
  assumes "sound_rounding ar" "representable ar P"
  shows "iterate_months ar r c 1 k (P, P, [])
         = (balanceAfter ar P c r k, contributedAfter ar P c k, map (seriesEntry ar P c r) [1..<Suc k])"
  using iterate_months_series[OF assms, of r c 0 k] by simp

lemma series_finite_months:
  assumes "sound_rounding ar" "representable ar (initialCapital p)"
      and "totalMonthsOf ar p = Fin (of_int n)"
  shows "\<exists>res. generateMonthlySeries ar p = Some res \<and>
           series res = map (seriesEntry ar (initialCapital p) (monthlyContribution p)
                               (monthlyRateOf ar p)) [1..<Suc (nat n)]"
proof -
  have "monthLoop ar (monthlyRateOf ar p) (monthlyContribution p) (totalMonthsOf ar p) 1
          (initialCapital p, initialCapital p, [])
        = Some (iterate_months ar (monthlyRateOf ar p) (monthlyContribution p) 1 (nat n)
                  (initialCapital p, initialCapital p, []))"
    by (simp add: assms(3) monthLoop_finite)
  then show ?thesis
    unfolding iterate_months_from_start[OF assms(1,2)]
    by (rule generateMonthlySeries_returns)
qed

text \<open>Every value the program stores is a Number of the arithmetic.\<close>

lemma loopBody_representable:
  assumes "sound_rounding ar"
  shows "\<exists>b t e. loopBody ar r c m (balance, contributed, rows) = (b, t, rows @ [e]) \<and>
           representable ar (totalValue e)"
  using representable_add[OF assms] by (simp add: loopBody_def Let_def)

lemma iterate_months_representable:
  assumes "sound_rounding ar"
      and "\<forall>e \<in> set (snd (snd st)). representable ar (totalValue e)"
  shows "\<forall>e \<in> set (snd (snd (iterate_months ar r c m k st))). representable ar (totalValue e)"
  using assms(2)
proof (induction k arbitrary: m st)
  case 0
  then show ?case by simp
next
  case (Suc k)
  obtain balance contributed rows where st: "st = (balance, contributed, rows)"
    by (cases st) auto
  obtain b t e where step: "loopBody ar r c m st = (b, t, rows @ [e])"
    and e: "representable ar (totalValue e)"
    using loopBody_representable[OF assms(1), of r c m balance contributed rows] st by auto
  have "\<forall>e \<in> set (snd (snd (loopBody ar r c m st))). representable ar (totalValue e)"
    using Suc.prems e unfolding step by (auto simp: st)
  from Suc.IH[OF this] show ?case by simp
qed

lemma monthLoop_representable:
  assumes "sound_rounding ar" "monthLoop ar r c n 1 (P, P, []) = Some (b, t, rows)"
  shows "\<forall>e \<in> set rows. representable ar (totalValue e)"
proof (cases n)
  case (Fin x)
  have "\<forall>e \<in> set (snd (snd (iterate_months ar r c 1 (nat (\<lfloor>x\<rfloor> - 1 + 1)) (P, P, [])))).
          representable ar (totalValue e)"
    by (rule iterate_months_representable[OF assms(1)]) simp
  then show ?thesis using assms(2) by (simp add: Fin monthLoop_finite)
next
  case PInf
  then show ?thesis using assms(2) by (simp add: monthLoop_PInf)
next
  case NInf
  then show ?thesis using assms(2) by (simp add: monthLoop_exit)
next
  case NaN
  then show ?thesis using assms(2) by (simp add: monthLoop_exit)
qed

lemma futureValueFormula_representable:
  "sound_rounding ar \<Longrightarrow> representable ar (futureValueFormula ar P c r n)"
  by (simp add: futureValueFormula_def Let_def representable_add)

lemma futureValue_representable:
  assumes "sound_rounding ar" "representable ar (initialCapital p)"
      and "generateMonthlySeries ar p = Some res"
  shows "representable ar (futureValue (summary res))"
proof -
  have rows: "\<forall>e \<in> set (series res). representable ar (totalValue e)"
    using generateMonthlySeries_Some(1)[OF assms(3)] monthLoop_representable[OF assms(1)]
    by blast
  show ?thesis
    unfolding generateMonthlySeries_Some(4)[OF assms(3)] chooseFutureValue_last
    using rows assms(2) futureValueFormula_representable[OF assms(1)] by auto
qed

lemma map_constant:
  "(\<And>x. x \<in> set xs \<Longrightarrow> f x = v) \<Longrightarrow> map f xs = replicate (length xs) v"
  by (induction xs) simp_all

section \<open>Exact arithmetic\<close>

lemma rnd_exact [simp]: "rnd exact x = Fin x"
  by (simp add: exact_def)

lemma pow_approx_exact [simp]: "pow_approx exact = exact_pow"
  by (simp add: exact_def)

lemma sound_rounding_exact: "sound_rounding exact"
  by (simp add: sound_rounding_def representable_def)

lemma representable_exact [simp]: "representable exact v"
  by (cases v) (simp_all add: representable_def)

lemma exact_pow_int: "exact_pow x (of_int k) = Fin (x powi k)"
  by (simp add: exact_pow_def is_integral_def)

lemma exact_pow_numeral [simp]: "exact_pow x (numeral k) = Fin (x ^ numeral k)"
  using exact_pow_int[of x "numeral k"] by simp

lemma exact_pow_one [simp]: "exact_pow x 1 = Fin x"
  using exact_pow_int[of x 1] by simp

lemma exact_pow_one_left [simp]: "exact_pow 1 y = Fin 1"
  by (simp add: exact_pow_def)

lemma exact_pow_finite: "\<exists>z. exact_pow x y = Fin z"
  by (simp add: exact_pow_def)

lemma exact_pow_bounds:
  "0 < x \<Longrightarrow> js_le (Fin 0) (exact_pow x y)"
  "1 \<le> x \<Longrightarrow> 0 < y \<Longrightarrow> js_le (Fin 1) (exact_pow x y)"
  "0 < x \<Longrightarrow> x \<le> 1 \<Longrightarrow> 0 < y \<Longrightarrow> js_le (exact_pow x y) (Fin 1)"
proof -
  show "js_le (Fin 0) (exact_pow x y)" if "0 < x"
    using that by (simp add: exact_pow_def)
  have fl: "0 \<le> \<lfloor>y\<rfloor>" if "0 < y" using that by simp
  show "js_le (Fin 1) (exact_pow x y)" if "1 \<le> x" "0 < y"
    using that fl[OF that(2)] ge_one_powr_ge_zero[of x y]
    by (simp add: exact_pow_def power_int_def one_le_power)
  show "js_le (exact_pow x y) (Fin 1)" if "0 < x" "x \<le> 1" "0 < y"
    using that fl[OF that(3)] powr_le1[of y x]
    by (simp add: exact_pow_def power_int_def power_le_one)
qed

lemma ordered_arith_exact: "ordered_arith exact"
  by (simp add: ordered_arith_def sound_rounding_exact exact_pow_bounds)


lemma calculateNetAnnualReturn_exact:
  "calculateNetAnnualReturn exact (Fin g) (Fin f) = Fin ((1 + g / 100) * (1 - f / 100) - 1)"
  by (simp add: calculateNetAnnualReturn_def js_sub_def)

lemma not_integral_twelfth: "\<not> is_integral (1 / 12)"
  by (simp add: is_integral_def)

lemma calculateMonthlyRate_exact:
  "calculateMonthlyRate exact (Fin x) =
     (if x \<le> - 1 then Fin (- 1) else Fin ((1 + x) powr (1 / 12) - 1))"
  by (simp add: calculateMonthlyRate_def js_sub_def exact_pow_def not_integral_twelfth)

lemma calculateMonthlyRate_exact_special:
  "calculateMonthlyRate exact PInf = PInf"
  "calculateMonthlyRate exact NInf = Fin (- 1)"
  "calculateMonthlyRate exact NaN = NaN"
  by (simp_all add: calculateMonthlyRate_def js_sub_def)

lemma calculateMonthlyRate_exact_total_loss:
  "calculateMonthlyRate exact v = Fin (- 1) \<longleftrightarrow> js_le v (Fin (- 1))"
proof (cases v)
  case (Fin x)
  have "(1 + x) powr (1 / 12) - 1 \<noteq> - 1" if "\<not> x \<le> - 1"
    using that by simp
  then show ?thesis
    by (simp add: Fin calculateMonthlyRate_exact)
qed (simp_all add: calculateMonthlyRate_exact_special)

lemma monthlyRateOf_exact:
  assumes "grossAnnualReturn p = Fin g" "annualFee p = Fin f"
  shows "\<exists>x. monthlyRateOf exact p = Fin x \<and> - 1 \<le> x"
proof -
  have "0 \<le> y powr (1 / 12)" for y :: real by simp
  then show ?thesis
    by (simp add: monthlyRateOf_def assms calculateNetAnnualReturn_exact calculateMonthlyRate_exact)
qed

lemma totalMonthsOf_exact:
  "years p = Fin y \<Longrightarrow> totalMonthsOf exact p = Fin (of_int \<lfloor>y * 12 + 1 / 2\<rfloor>)"
  by (simp add: totalMonthsOf_def)

text \<open>The recurrence and the closed form, as real numbers.\<close>

lemma contributedAfter_exact:
  "contributedAfter exact (Fin P) (Fin c) k = Fin (P + c * of_nat k)"
  by (induction k) (simp_all add: algebra_simps)

lemma balanceAfter_exact_zero_rate:
  "balanceAfter exact (Fin P) (Fin c) (Fin 0) k = Fin (P + c * of_nat k)"
  by (induction k) (simp_all add: algebra_simps)

lemma balanceAfter_exact:
  assumes "x \<noteq> 0"
  shows "balanceAfter exact (Fin P) (Fin c) (Fin x) k
           = Fin (P * (1 + x) ^ k + c * (((1 + x) ^ k - 1) / x))"
  using assms by (induction k) (simp_all add: field_simps)



lemma entries_exact:
  assumes "initialCapital p = Fin P" "monthlyContribution p = Fin c"
      and "grossAnnualReturn p = Fin g" "annualFee p = Fin f" "years p = Fin y"
  shows "\<exists>res. generateMonthlySeries exact p = Some res \<and>
           (\<forall>e \<in> set (series res). \<exists>b t i.
              totalValue e = Fin b \<and> totalContributed e = Fin t \<and>
              interestAccumulated e = Fin i \<and> b = t + i)"
proof -
  obtain x where x: "monthlyRateOf exact p = Fin x"
    using monthlyRateOf_exact[OF assms(3,4)] by blast
  obtain res where res: "generateMonthlySeries exact p = Some res"
    and rows: "series res = map (seriesEntry exact (initialCapital p) (monthlyContribution p)
                 (monthlyRateOf exact p)) [1..<Suc (nat \<lfloor>y * 12 + 1 / 2\<rfloor>)]"
    using series_finite_months[OF sound_rounding_exact _ totalMonthsOf_exact[OF assms(5)]] by auto
  have "\<exists>b t i. totalValue e = Fin b \<and> totalContributed e = Fin t \<and>
          interestAccumulated e = Fin i \<and> b = t + i"
    if "e \<in> set (series res)" for e
  proof -
    have "e \<in> set (map (seriesEntry exact (Fin P) (Fin c) (Fin x)) [1..<Suc (nat \<lfloor>y * 12 + 1 / 2\<rfloor>)])"
      using that by (simp only: rows assms x)
    then obtain k where e: "e = seriesEntry exact (Fin P) (Fin c) (Fin x) k"
      by auto
    obtain b where b: "balanceAfter exact (Fin P) (Fin c) (Fin x) k = Fin b"
      by (cases "x = 0") (simp_all add: balanceAfter_exact balanceAfter_exact_zero_rate)
    show ?thesis
      by (simp add: e seriesEntry_def b contributedAfter_exact js_sub_def)
  qed
  with res show ?thesis by blast
qed

lemma inflationFactor_exact_gt_one:
  assumes "annualInflation p = Fin i" "0 < i" "years p = Fin y" "0 < y"
  shows "\<exists>k. inflationFactorOf exact p = Fin k \<and> 1 < k"
proof -
  let ?b = "1 + i / 100"
  have b: "1 < ?b" using assms(2) by simp
  have "1 < ?b powr y" using powr_less_mono[of 0 y ?b] b assms(4) by simp
  moreover have "1 < ?b powi \<lfloor>y\<rfloor>" if "is_integral y"
  proof -
    have eq: "of_int \<lfloor>y\<rfloor> = y" using that unfolding is_integral_def .
    have "0 < (of_int \<lfloor>y\<rfloor> :: real)" unfolding eq by (rule assms(4))
    then have "0 < \<lfloor>y\<rfloor>" by (simp only: of_int_0_less_iff)
    then show ?thesis using b by (simp add: power_int_def)
  qed
  ultimately show ?thesis
    using assms b by (simp add: inflationFactorOf_def exact_pow_def)
qed

section \<open>Double precision\<close>

text \<open>The exponent of a value, from bounds by powers of two.\<close>

lemma two_powr_of_int: "(2::real) powr of_int e = 2 powi e"
  by (simp add: powr_real_of_int')

lemma floor_log2_eq:
  assumes "2 powi e \<le> \<bar>x\<bar>" "\<bar>x\<bar> < 2 powi (e + 1)"
  shows "\<lfloor>log 2 \<bar>x\<bar>\<rfloor> = e"
proof -
  have "0 < (2::real) powi e" by simp
  with assms(1) have pos: "0 < \<bar>x\<bar>" by linarith
  have "2 powr of_int e \<le> \<bar>x\<bar> \<and> \<bar>x\<bar> < 2 powr (of_int e + 1)"
    using assms two_powr_of_int[of e] two_powr_of_int[of "e + 1"] by simp
  then show ?thesis
    using floor_log_eq_powr_iff[of "\<bar>x\<bar>" 2 e] pos by simp
qed

lemma floor_log2_bounds:
  assumes "x \<noteq> 0"
  shows "2 powi \<lfloor>log 2 \<bar>x\<bar>\<rfloor> \<le> \<bar>x\<bar>" and "\<bar>x\<bar> < 2 powi (\<lfloor>log 2 \<bar>x\<bar>\<rfloor> + 1)"
proof -
  have pos: "0 < \<bar>x\<bar>" using assms by simp
  have "2 powr of_int \<lfloor>log 2 \<bar>x\<bar>\<rfloor> \<le> \<bar>x\<bar> \<and> \<bar>x\<bar> < 2 powr (of_int \<lfloor>log 2 \<bar>x\<bar>\<rfloor> + 1)"
    using floor_log_eq_powr_iff[of "\<bar>x\<bar>" 2 "\<lfloor>log 2 \<bar>x\<bar>\<rfloor>"] pos by simp
  then show "2 powi \<lfloor>log 2 \<bar>x\<bar>\<rfloor> \<le> \<bar>x\<bar>" and "\<bar>x\<bar> < 2 powi (\<lfloor>log 2 \<bar>x\<bar>\<rfloor> + 1)"
    using two_powr_of_int[of "\<lfloor>log 2 \<bar>x\<bar>\<rfloor>"] two_powr_of_int[of "\<lfloor>log 2 \<bar>x\<bar>\<rfloor> + 1"] by simp_all
qed

lemma ulp_exponent_eq:
  assumes "2 powi e \<le> \<bar>x\<bar>" "\<bar>x\<bar> < 2 powi (e + 1)" "- 1022 \<le> e"
  shows "ulp_exponent x = e - 52"
  using floor_log2_eq[OF assms(1,2)] assms(3) by (simp add: ulp_exponent_def)

lemma ulp_exponent_bound:
  assumes "x \<noteq> 0"
  shows "\<bar>x\<bar> < 2 ^ 53 * 2 powi ulp_exponent x"
proof -
  have "\<bar>x\<bar> < 2 powi (\<lfloor>log 2 \<bar>x\<bar>\<rfloor> + 1)" by (rule floor_log2_bounds(2)[OF assms])
  also have "\<dots> \<le> 2 powi (ulp_exponent x + 53)"
    by (rule power_int_increasing) (simp_all add: ulp_exponent_def)
  also have "\<dots> = 2 ^ 53 * 2 powi ulp_exponent x"
    by (simp add: power_int_add)
  finally show ?thesis .
qed

lemma ulp_exponent_minus [simp]: "ulp_exponent (- x) = ulp_exponent x"
  by (simp add: ulp_exponent_def)

lemma ulp_exponent_mono:
  assumes "0 < x" "x \<le> y"
  shows "ulp_exponent x \<le> ulp_exponent y"
proof -
  have "log 2 \<bar>x\<bar> \<le> log 2 \<bar>y\<bar>" using assms by simp
  then have "\<lfloor>log 2 \<bar>x\<bar>\<rfloor> \<le> \<lfloor>log 2 \<bar>y\<bar>\<rfloor>" by (rule floor_mono)
  then show ?thesis by (simp add: ulp_exponent_def)
qed

text \<open>Rounding to an integer: near, monotone, odd.\<close>

lemma round_even_of_int [simp]: "round_even (of_int k) = k"
  by (simp add: round_even_def)

lemma round_even_zero [simp]: "round_even 0 = 0"
  using round_even_of_int[of 0] by simp

lemma round_even_near: "\<bar>of_int (round_even z) - z\<bar> \<le> 1 / 2"
proof -
  have "of_int \<lfloor>z\<rfloor> \<le> z" "z < of_int \<lfloor>z\<rfloor> + 1" by linarith+
  then show ?thesis by (auto simp: round_even_def Let_def)
qed

lemma round_even_lower: "of_int k \<le> z \<Longrightarrow> k \<le> round_even z"
proof -
  assume "of_int k \<le> z"
  then have "k \<le> \<lfloor>z\<rfloor>" by (simp add: le_floor_iff)
  then show ?thesis by (auto simp: round_even_def Let_def)
qed

lemma round_even_mono: "a \<le> b \<Longrightarrow> round_even a \<le> round_even b"
proof -
  assume ab: "a \<le> b"
  have fl: "\<lfloor>a\<rfloor> \<le> \<lfloor>b\<rfloor>" using ab by (rule floor_mono)
  show ?thesis
  proof (cases "\<lfloor>a\<rfloor> = \<lfloor>b\<rfloor>")
    case True
    then show ?thesis using ab by (auto simp: round_even_def Let_def)
  next
    case False
    then have "\<lfloor>a\<rfloor> + 1 \<le> \<lfloor>b\<rfloor>" using fl by simp
    moreover have "round_even a \<le> \<lfloor>a\<rfloor> + 1" by (auto simp: round_even_def Let_def)
    moreover have "\<lfloor>b\<rfloor> \<le> round_even b" by (auto simp: round_even_def Let_def)
    ultimately show ?thesis by linarith
  qed
qed

lemma round_even_minus: "round_even (- z) = - round_even z"
proof (cases "of_int \<lfloor>z\<rfloor> = z")
  case True
  then obtain k where "z = of_int k" by (metis)
  then show ?thesis using round_even_of_int[of "- k"] by simp
next
  case False
  then have c: "\<lceil>z\<rceil> = \<lfloor>z\<rfloor> + 1" by (simp add: ceiling_altdef)
  have f: "\<lfloor>- z\<rfloor> = - \<lfloor>z\<rfloor> - 1" using c by (simp add: floor_minus)
  show ?thesis
    unfolding round_even_def Let_def f by (auto simp: field_simps)
qed

lemma significand_bound:
  assumes "x \<noteq> 0"
  shows "\<bar>round_even (x / 2 powi ulp_exponent x)\<bar> \<le> 2 ^ 53"
proof -
  let ?q = "(2::real) powi ulp_exponent x"
  have q: "0 < ?q" by simp
  have "\<bar>x / ?q\<bar> < 2 ^ 53"
    using ulp_exponent_bound[OF assms] q by (simp add: field_simps)
  then have "\<bar>of_int (round_even (x / ?q)) :: real\<bar> < 2 ^ 53 + 1"
    using round_even_near[of "x / ?q"] by linarith
  then have "\<bar>round_even (x / ?q)\<bar> < 2 ^ 53 + 1"
    by (metis (mono_tags, opaque_lifting) of_int_abs of_int_less_iff of_int_numeral of_int_power of_int_add of_int_1)
  then show ?thesis by simp
qed

text \<open>Evaluation of the rounding, and the values it leaves alone.\<close>

lemma nearest_zero [simp]: "nearest 0 = 0"
  by (simp add: nearest_def)

lemma binary64_not_NaN [simp]: "binary64 x \<noteq> NaN"
  by (simp add: binary64_def inf_of_def)

lemma binary64_normal:
  assumes "2 powi e \<le> \<bar>x\<bar>" "\<bar>x\<bar> < 2 powi (e + 1)" "- 1022 \<le> e"
      and "round_even (x / 2 powi (e - 52)) = m"
      and "\<bar>of_int m * 2 powi (e - 52)\<bar> < (2::real) ^ 1024"
  shows "binary64 x = Fin (of_int m * 2 powi (e - 52))"
proof -
  have "0 < (2::real) powi e" by simp
  with assms(1) have "0 < \<bar>x\<bar>" by linarith
  then have "x \<noteq> 0" by simp
  then show ?thesis
    using assms(4,5) by (simp add: binary64_def nearest_def ulp_exponent_eq[OF assms(1-3)])
qed

lemma binary64_exact:
  assumes "x / 2 powi ulp_exponent x = of_int m" "\<bar>x\<bar> < 2 ^ 1024"
  shows "binary64 x = Fin x"
proof -
  have "round_even (x / 2 powi ulp_exponent x) = m"
    by (simp add: assms(1))
  moreover have "of_int m * 2 powi ulp_exponent x = x"
    using assms(1) by (simp add: field_simps)
  ultimately have "nearest x = x"
    by (simp add: nearest_def)
  then show ?thesis
    using assms(2) by (simp add: binary64_def)
qed

lemma binary64_overflow:
  assumes "2 ^ 1024 \<le> x"
  shows "binary64 x = PInf"
proof -
  have pos: "0 < x" using assms by (rule less_le_trans[rotated]) simp
  then have x0: "x \<noteq> 0" and ax: "\<bar>x\<bar> = x" by simp_all
  define L where "L = \<lfloor>log 2 \<bar>x\<bar>\<rfloor>"
  have L: "2 powi L \<le> x" "x < 2 powi (L + 1)"
    using floor_log2_bounds[OF x0] by (simp_all add: L_def ax)
  have "(2::real) powi 1024 < 2 powi (L + 1)"
    using assms L(2) by simp
  then have "1024 < L + 1"
    by (metis (no_types, opaque_lifting) linorder_not_less power_int_increasing one_le_numeral)
  then have u: "ulp_exponent x = L - 52" by (simp add: ulp_exponent_def L_def)
  let ?q = "(2::real) powi (L - 52)"
  have q: "0 < ?q" by simp
  have "2 powi L = 2 ^ 52 * ?q" by (simp add: power_int_diff)
  then have "of_int (2 ^ 52) \<le> x / ?q" using L(1) q by (simp add: field_simps)
  then have "2 ^ 52 \<le> round_even (x / ?q)" by (rule round_even_lower)
  then have "(2 ^ 52 :: real) \<le> of_int (round_even (x / ?q))"
    by (metis of_int_le_iff of_int_numeral of_int_power)
  then have m: "2 ^ 52 * ?q \<le> of_int (round_even (x / ?q)) * ?q"
    using q by (intro mult_right_mono) simp_all
  have "(2::real) ^ 1024 = 2 powi 1024" by simp
  also have "\<dots> \<le> 2 powi L"
    using \<open>1024 < L + 1\<close> by (intro power_int_increasing) simp_all
  also have "\<dots> = 2 ^ 52 * ?q" by (simp add: power_int_diff)
  also note m
  finally have "2 ^ 1024 \<le> of_int (round_even (x / ?q)) * ?q" .
  then have "2 ^ 1024 \<le> \<bar>of_int (round_even (x / ?q)) * ?q\<bar>" by linarith
  then show ?thesis
    using pos by (simp add: binary64_def nearest_def u inf_of_def)
qed

lemma scaled_integer_representable:
  assumes "\<bar>m\<bar> \<le> 2 ^ 53" "- 1074 \<le> u" "y = of_int m * 2 powi u" "\<bar>y\<bar> < 2 ^ 1024"
  shows "binary64 y = Fin y"
proof (cases "m = 0")
  case True
  then show ?thesis using assms(3) by (simp add: binary64_def nearest_def)
next
  case False
  have q: "0 < (2::real) powi u" by simp
  have y0: "y \<noteq> 0" using False assms(3) by simp
  have ay: "\<bar>y\<bar> = of_int \<bar>m\<bar> * 2 powi u" by (simp add: assms(3) abs_mult)
  define L where "L = \<lfloor>log 2 \<bar>y\<bar>\<rfloor>"
  have L: "2 powi L \<le> \<bar>y\<bar>" "\<bar>y\<bar> < 2 powi (L + 1)"
    using floor_log2_bounds[OF y0] by (simp_all add: L_def)
  show ?thesis
  proof (cases "\<bar>m\<bar> = 2 ^ 53")
    case True
    then have "\<bar>y\<bar> = 2 powi (u + 53)" by (simp add: ay power_int_add)
    then have "L = u + 53"
      using floor_log2_eq[of "u + 53" y] by (simp add: L_def power_int_add)
    then have ue: "ulp_exponent y = u + 1"
      using assms(2) by (simp add: ulp_exponent_def L_def)
    have "even m" using True by (metis even_abs_add_iff even_add even_numeral even_power zero_less_numeral)
    then obtain h where h: "m = 2 * h" by (elim evenE)
    have "y / 2 powi (u + 1) = of_int h"
      by (simp add: assms(3) h power_int_add)
    then have "y / 2 powi ulp_exponent y = of_int h"
      by (simp only: ue)
    then show ?thesis using assms(4) by (rule binary64_exact)
  next
    case False
    then have "\<bar>m\<bar> < 2 ^ 53" using assms(1) by simp
    then have "(of_int \<bar>m\<bar> :: real) < 2 ^ 53"
      by (metis of_int_less_iff of_int_numeral of_int_power)
    then have "\<bar>y\<bar> < 2 ^ 53 * 2 powi u" using q by (simp add: ay)
    then have "2 powi L < (2::real) powi (u + 53)"
      using L(1) by (simp add: power_int_add)
    then have "L < u + 53"
      by (metis (no_types, opaque_lifting) linorder_not_less power_int_increasing one_le_numeral)
    then have "ulp_exponent y \<le> u"
      using assms(2) by (simp add: ulp_exponent_def L_def)
    then obtain d where d: "u = ulp_exponent y + int d"
      by (metis zle_iff_zadd)
    have yd: "y = of_int m * 2 powi (ulp_exponent y + int d)"
      using assms(3) unfolding d[symmetric] .
    have "of_int m * 2 powi (ulp_exponent y + int d) / 2 powi ulp_exponent y
            = (of_int (m * 2 ^ d) :: real)"
      by (simp add: power_int_add)
    then have "y / 2 powi ulp_exponent y = of_int (m * 2 ^ d)"
      by (subst yd)
    then show ?thesis using assms(4) by (rule binary64_exact)
  qed
qed

lemma binary64_of_int:
  assumes "\<bar>k\<bar> \<le> 2 ^ 53"
  shows "binary64 (of_int k) = Fin (of_int k)"
proof -
  have "\<bar>of_int k :: real\<bar> \<le> 2 ^ 53"
    using assms by (metis of_int_abs of_int_le_iff of_int_numeral of_int_power)
  then have "\<bar>of_int k :: real\<bar> < 2 ^ 1024"
    by (rule order_le_less_trans) simp
  with assms show ?thesis
    by (intro scaled_integer_representable[of k 0]) simp_all
qed

lemma binary64_numeral [simp]:
  "numeral k \<le> (2::int) ^ 53 \<Longrightarrow> binary64 (numeral k) = Fin (numeral k)"
  "numeral k \<le> (2::int) ^ 53 \<Longrightarrow> binary64 (- numeral k) = Fin (- numeral k)"
  using binary64_of_int[of "numeral k"] binary64_of_int[of "- numeral k"] by simp_all

text \<open>Rounding is idempotent: \<open>ieee_double\<close> is a sound rounding.\<close>

lemma binary64_representable: "representable ieee_double (binary64 x)"
proof (cases "x = 0")
  case True
  then show ?thesis by (simp add: representable_def binary64_def nearest_def ieee_double_def inf_of_def)
next
  case False
  let ?m = "round_even (x / 2 powi ulp_exponent x)"
  let ?y = "(of_int ?m * 2 powi ulp_exponent x) :: real"
  have u: "- 1074 \<le> ulp_exponent x" by (simp add: ulp_exponent_def)
  have "binary64 ?y = Fin ?y" if "\<bar>?y\<bar> < 2 ^ 1024"
    using significand_bound[OF False] u _ that by (rule scaled_integer_representable) simp
  then show ?thesis
    by (auto simp: representable_def binary64_def nearest_def ieee_double_def inf_of_def)
qed

lemma sound_rounding_ieee_double: "sound_rounding ieee_double"
proof -
  have "binary64 (of_int 1) = Fin (of_int 1)" by (rule binary64_of_int) simp
  then have "rnd ieee_double 1 = Fin 1" by (simp add: ieee_double_def)
  moreover have "representable ieee_double (rnd ieee_double x)" for x
    using binary64_representable[of x] by (simp add: ieee_double_def)
  ultimately show ?thesis by (simp add: sound_rounding_def)
qed

lemma rnd_ieee_double [simp]: "rnd ieee_double = binary64"
  by (simp add: ieee_double_def)

lemma binary64_small [simp]:
  "binary64 0 = Fin 0" "binary64 1 = Fin 1" "binary64 (- 1) = Fin (- 1)" "binary64 12 = Fin 12"
  using binary64_of_int[of 0] binary64_of_int[of 1] binary64_of_int[of "- 1"]
    binary64_of_int[of 12]
  by simp_all

lemma representable_numeral [simp]:
  "numeral k \<le> (2::int) ^ 53 \<Longrightarrow> representable ieee_double (Fin (numeral k))"
  "representable ieee_double (Fin 0)" "representable ieee_double (Fin 1)"
  by (simp_all add: representable_def)

lemma pow_approx_ieee_double_one_left [simp]: "pow_approx ieee_double 1 y = Fin 1"
  by (simp add: ieee_double_def)

text \<open>Rounding is monotone: \<open>ieee_double\<close> is an ordered arithmetic.\<close>

lemma nearest_minus: "nearest (- x) = - nearest x"
  by (simp add: nearest_def round_even_minus)

lemma nearest_nonneg: "0 \<le> x \<Longrightarrow> 0 \<le> nearest x"
proof -
  assume "0 \<le> x"
  then have "of_int 0 \<le> x / 2 powi ulp_exponent x" by simp
  then have "0 \<le> round_even (x / 2 powi ulp_exponent x)" by (rule round_even_lower)
  then show ?thesis by (simp add: nearest_def)
qed

lemma nearest_upper:
  assumes "x \<noteq> 0"
  shows "\<bar>nearest x\<bar> \<le> 2 powi (ulp_exponent x + 53)"
proof -
  have "\<bar>of_int (round_even (x / 2 powi ulp_exponent x)) :: real\<bar> \<le> 2 ^ 53"
    using significand_bound[OF assms]
    by (metis of_int_abs of_int_le_iff of_int_numeral of_int_power)
  then have "\<bar>of_int (round_even (x / 2 powi ulp_exponent x)) :: real\<bar> * 2 powi ulp_exponent x
               \<le> 2 ^ 53 * 2 powi ulp_exponent x"
    by (intro mult_right_mono) simp_all
  then show ?thesis by (simp add: nearest_def abs_mult power_int_add mult.commute)
qed

lemma nearest_lower_normal:
  assumes "0 < y" "- 1074 < ulp_exponent y"
  shows "2 powi (ulp_exponent y + 52) \<le> nearest y"
proof -
  let ?q = "(2::real) powi ulp_exponent y"
  have y0: "y \<noteq> 0" and ay: "\<bar>y\<bar> = y" using assms(1) by simp_all
  have "ulp_exponent y = \<lfloor>log 2 \<bar>y\<bar>\<rfloor> - 52"
    using assms(2) by (simp add: ulp_exponent_def max_def split: if_splits)
  then have "2 powi (ulp_exponent y + 52) \<le> y"
    using floor_log2_bounds(1)[OF y0] by (simp add: ay)
  then have "2 ^ 52 * ?q \<le> y" by (simp add: power_int_add mult.commute)
  then have "of_int (2 ^ 52) \<le> y / ?q" by (simp add: field_simps)
  then have "2 ^ 52 \<le> round_even (y / ?q)" by (rule round_even_lower)
  then have "(2 ^ 52 :: real) \<le> of_int (round_even (y / ?q))"
    by (metis of_int_le_iff of_int_numeral of_int_power)
  then have "2 ^ 52 * ?q \<le> of_int (round_even (y / ?q)) * ?q"
    by (intro mult_right_mono) simp_all
  then show ?thesis by (simp add: nearest_def power_int_add mult.commute)
qed

lemma nearest_mono_pos:
  assumes "0 < x" "x \<le> y"
  shows "nearest x \<le> nearest y"
proof (cases "ulp_exponent x = ulp_exponent y")
  case True
  let ?q = "(2::real) powi ulp_exponent y"
  have "x / ?q \<le> y / ?q" using assms(2) by (simp add: divide_right_mono)
  then have "round_even (x / ?q) \<le> round_even (y / ?q)" by (rule round_even_mono)
  then have "(of_int (round_even (x / ?q)) :: real) \<le> of_int (round_even (y / ?q))" by simp
  then have "of_int (round_even (x / ?q)) * ?q \<le> of_int (round_even (y / ?q)) * ?q"
    by (intro mult_right_mono) simp_all
  then show ?thesis by (simp add: nearest_def True)
next
  case False
  then have lt: "ulp_exponent x < ulp_exponent y"
    using ulp_exponent_mono[OF assms] by simp
  have "- 1074 \<le> ulp_exponent x" by (simp add: ulp_exponent_def)
  with lt have normal: "- 1074 < ulp_exponent y" by simp
  have y: "0 < y" using assms by simp
  have "nearest x \<le> \<bar>nearest x\<bar>" by simp
  also have "\<dots> \<le> 2 powi (ulp_exponent x + 53)"
    using assms(1) by (intro nearest_upper) simp
  also have "\<dots> \<le> 2 powi (ulp_exponent y + 52)"
    using lt by (intro power_int_increasing) simp_all
  also have "\<dots> \<le> nearest y" by (rule nearest_lower_normal[OF y normal])
  finally show ?thesis .
qed

lemma nearest_mono: "x \<le> y \<Longrightarrow> nearest x \<le> nearest y"
proof -
  assume xy: "x \<le> y"
  consider "0 < x" | "x \<le> 0" "0 \<le> y" | "y < 0" by linarith
  then show ?thesis
  proof cases
    case 1
    then show ?thesis using xy by (rule nearest_mono_pos)
  next
    case 2
    have "0 \<le> nearest (- x)" using 2(1) by (intro nearest_nonneg) simp
    then have "nearest x \<le> 0" by (simp add: nearest_minus)
    also have "0 \<le> nearest y" using 2(2) by (rule nearest_nonneg)
    finally show ?thesis .
  next
    case 3
    then have "nearest (- y) \<le> nearest (- x)" using xy by (intro nearest_mono_pos) simp_all
    then show ?thesis by (simp add: nearest_minus)
  qed
qed

lemma binary64_mono:
  assumes "x \<le> y"
  shows "js_le (binary64 x) (binary64 y)"
proof -
  have n: "nearest x \<le> nearest y" using assms by (rule nearest_mono)
  have sx: "nearest x \<le> 0" if "x \<le> 0"
    using nearest_mono[OF that] by simp
  have sy: "0 \<le> nearest y" if "0 \<le> y"
    using nearest_mono[OF that] by simp
  show ?thesis
  proof (cases "0 < x")
    case True
    then have "0 < y" using assms by simp
    moreover have "0 \<le> nearest x" using True nearest_mono[of 0 x] by simp
    ultimately show ?thesis
      using True n by (auto simp: binary64_def inf_of_def)
  next
    case False
    then have x: "x \<le> 0" by simp
    show ?thesis
    proof (cases "0 < y")
      case True
      then show ?thesis
        using x sx[OF x] sy n by (auto simp: binary64_def inf_of_def)
    next
      case False
      then have "nearest y \<le> 0" using nearest_mono[of y 0] by simp
      then show ?thesis
        using x sx[OF x] False n by (auto simp: binary64_def inf_of_def)
    qed
  qed
qed

lemma ordered_arith_ieee_double: "ordered_arith ieee_double"
proof -
  have pow: "pow_approx ieee_double x y = binary64 z" if "exact_pow x y = Fin z" for x y z
    using that by (simp add: ieee_double_def)
  have "js_le (Fin 0) (pow_approx ieee_double x y)" if "0 < x" for x y
  proof -
    obtain z where z: "exact_pow x y = Fin z" using exact_pow_finite by blast
    then have "0 \<le> z" using exact_pow_bounds(1)[OF that, of y] by simp
    then show ?thesis using binary64_mono[of 0 z] by (simp add: pow[OF z])
  qed
  moreover have "js_le (Fin 1) (pow_approx ieee_double x y)" if "1 \<le> x" "0 < y" for x y
  proof -
    obtain z where z: "exact_pow x y = Fin z" using exact_pow_finite by blast
    then have "1 \<le> z" using exact_pow_bounds(2)[OF that] by simp
    then show ?thesis using binary64_mono[of 1 z] by (simp add: pow[OF z])
  qed
  moreover have "js_le (pow_approx ieee_double x y) (Fin 1)" if "0 < x" "x \<le> 1" "0 < y" for x y
  proof -
    obtain z where z: "exact_pow x y = Fin z" using exact_pow_finite by blast
    then have "z \<le> 1" using exact_pow_bounds(3)[OF that] by simp
    then show ?thesis using binary64_mono[of z 1] by (simp add: pow[OF z])
  qed
  ultimately show ?thesis
    by (simp add: ordered_arith_def sound_rounding_ieee_double binary64_mono)
qed

text \<open>Some values.\<close>

lemma binary64_capital: "binary64 (2 ^ 60) = Fin (2 ^ 60)"
  by (rule scaled_integer_representable[of "2 ^ 52" 8]) simp_all

lemma binary64_large_capital:
  "binary64 (2 ^ 60 + 1) = Fin (2 ^ 60)"
proof -
  have "round_even ((2 ^ 60 + 1) / 2 powi (60 - 52)) = 2 ^ 52"
    by (simp add: round_even_def Let_def)
  from binary64_normal[of 60 "2 ^ 60 + 1", OF _ _ _ this] show ?thesis by simp
qed

lemma binary64_large_loss:
  "binary64 (1 - 2 ^ 60) = Fin (- (2 ^ 60))"
proof -
  have "round_even ((1 - 2 ^ 60) / 2 powi (59 - 52)) = - (2 ^ 53)"
    by (simp add: round_even_def Let_def)
  from binary64_normal[of 59 "1 - 2 ^ 60", OF _ _ _ this] show ?thesis by simp
qed

lemma binary64_threshold: "binary64 (1 / 10 ^ 12) = Fin (4951760157141521 / 2 ^ 92)"
proof -
  have "round_even ((1 / 10 ^ 12) / 2 powi (- 40 - 52)) = 4951760157141521"
    by (simp add: round_even_def Let_def power_int_minus)
  from binary64_normal[of "- 40" "1 / 10 ^ 12", OF _ _ _ this] show ?thesis
    by (simp add: power_int_minus)
qed

lemma binary64_twelfth: "binary64 (1 / 12) = Fin (6004799503160661 / 2 ^ 56)"
proof -
  have "round_even ((1 / 12) / 2 powi (- 4 - 52)) = 6004799503160661"
    by (simp add: round_even_def Let_def power_int_minus)
  from binary64_normal[of "- 4" "1 / 12", OF _ _ _ this] show ?thesis
    by (simp add: power_int_minus)
qed

lemma binary64_tiny: "binary64 (1 / 2 ^ 60) = Fin (1 / 2 ^ 60)"
  by (rule scaled_integer_representable[of 1 "- 60"]) (simp_all add: power_int_minus)

lemma binary64_one_plus_tiny: "binary64 (1 + 1 / 2 ^ 60) = Fin 1"
proof -
  have "round_even ((1 + 1 / 2 ^ 60) / 2 powi (0 - 52)) = 2 ^ 52"
    by (simp add: round_even_def Let_def power_int_minus)
  from binary64_normal[of 0 "1 + 1 / 2 ^ 60", OF _ _ _ this] show ?thesis
    by (simp add: power_int_minus)
qed

lemma binary64_power_1000:
  "binary64 (2 ^ 1000) = Fin (2 ^ 1000)" "binary64 (- (2 ^ 1000)) = Fin (- (2 ^ 1000))"
  using scaled_integer_representable[of 1 1000 "2 ^ 1000"]
    scaled_integer_representable[of "- 1" 1000 "- (2 ^ 1000)"]
  by simp_all

lemma binary64_one_minus_power_1000: "binary64 (1 - 2 ^ 1000) = Fin (- (2 ^ 1000))"
proof -
  have "round_even ((1 - 2 ^ 1000) / 2 powi (999 - 52)) = - (2 ^ 53)"
    by (simp add: round_even_def Let_def)
  from binary64_normal[of 999 "1 - 2 ^ 1000", OF _ _ _ this] show ?thesis by simp
qed

lemma binary64_power_minus_53: "binary64 (1 / 2 ^ 53) = Fin (1 / 2 ^ 53)"
  by (rule scaled_integer_representable[of 1 "- 53"]) (simp_all add: power_int_minus)

lemma binary64_thirty_second:
  "binary64 (1 / 32) = Fin (1 / 32)" "binary64 (- (31 / 32)) = Fin (- (31 / 32))"
  using scaled_integer_representable[of 1 "- 5" "1 / 32"]
    scaled_integer_representable[of "- 31" "- 5" "- (31 / 32)"]
  by (simp_all add: power_int_minus)

text \<open>
  The Number next above \<open>-1\<close> is \<open>-1 + 2 powi -53\<close>, and the twelfth root of a positive
  Number is at least \<open>1 / 32\<close>: a monthly rate is \<open>-1\<close> only when the code returns that
  constant.
\<close>

lemma binary64_fixed_nearest:
  assumes "binary64 x = Fin x"
  shows "nearest x = x"
  using assms by (simp add: binary64_def inf_of_def split: if_splits)

lemma double_above_minus_one:
  assumes "binary64 x = Fin x" "- 1 < x"
  shows "- 1 + 1 / 2 ^ 53 \<le> x"
proof (rule ccontr)
  assume "\<not> ?thesis"
  then have lt: "x < - 1 + 1 / 2 ^ 53" by simp
  have "(2::real) powi (- 1) \<le> \<bar>x\<bar>" "\<bar>x\<bar> < 2 powi (- 1 + 1)"
    using assms(2) lt by (simp_all add: power_int_minus)
  then have e: "ulp_exponent x = - 53"
    using ulp_exponent_eq[of "- 1" x] by simp
  define m where "m = round_even (x / 2 powi ulp_exponent x)"
  have x: "x = of_int m / 2 ^ 53"
    using binary64_fixed_nearest[OF assms(1)] by (simp add: nearest_def m_def e power_int_minus field_simps)
  have "of_int (- (2 ^ 53)) < (of_int m :: real)" "(of_int m :: real) < of_int (- (2 ^ 53) + 1)"
    using assms(2) lt unfolding x by (simp_all add: field_simps)
  then have "- (2 ^ 53) < m" "m < - (2 ^ 53) + 1"
    by (simp_all only: of_int_less_iff)
  then show False by simp
qed

lemma twelfth_root_lower:
  fixes b :: real
  assumes "1 / 2 ^ 53 \<le> b"
  shows "1 / 32 \<le> b powr (6004799503160661 / 2 ^ 56)"
proof -
  let ?e = "6004799503160661 / 2 ^ 56 :: real"
  have "(1 / 32 :: real) = 2 powr (- 5)"
    by (simp add: powr_minus field_simps)
  also have "\<dots> \<le> 2 powr (- 53 * ?e)"
    by (rule powr_mono) simp_all
  also have "\<dots> = (2 powr (- 53)) powr ?e"
    by (simp add: powr_powr)
  also have "2 powr (- 53) = (1 / 2 ^ 53 :: real)"
    by (simp add: powr_minus field_simps)
  also have "(1 / 2 ^ 53 :: real) powr ?e \<le> b powr ?e"
    using assms by (intro powr_mono2) simp_all
  finally show ?thesis .
qed

lemma monthlyRate_total_loss_double:
  assumes "representable ieee_double v"
  shows "(calculateMonthlyRate ieee_double v = Fin (- 1)) = js_le v (Fin (- 1))"
proof (cases v)
  case (Fin x)
  then have x: "binary64 x = Fin x" using assms by (simp add: representable_def)
  show ?thesis
  proof (cases "x \<le> - 1")
    case True
    then have "js_le (binary64 (1 + x)) (binary64 0)" by (intro binary64_mono) simp
    then show ?thesis using True by (simp add: Fin calculateMonthlyRate_def)
  next
    case False
    let ?e = "6004799503160661 / 2 ^ 56 :: real"
    have "1 / 2 ^ 53 \<le> 1 + x" using double_above_minus_one[OF x] False by simp
    then have "js_le (binary64 (1 / 2 ^ 53)) (binary64 (1 + x))" by (rule binary64_mono)
    then have base: "js_le (Fin (1 / 2 ^ 53)) (binary64 (1 + x))"
      by (simp add: binary64_power_minus_53[simplified])
    have e: "js_div ieee_double (Fin 1) (Fin 12) = Fin ?e"
      by (simp add: binary64_twelfth)
    have ne: "\<not> is_integral ?e" by (simp add: is_integral_def)
    have "calculateMonthlyRate ieee_double v \<noteq> Fin (- 1)"
    proof (cases "binary64 (1 + x)")
      case (Fin b)
      then have b: "1 / 2 ^ 53 \<le> b" using base by simp
      moreover have "(0::real) < 1 / 2 ^ 53" by simp
      ultimately have b0: "0 < b" by linarith
      have "1 / 32 \<le> b powr ?e" using b by (rule twelfth_root_lower)
      then have "js_le (binary64 (1 / 32)) (binary64 (b powr ?e))" by (rule binary64_mono)
      then have p: "js_le (Fin (1 / 32)) (binary64 (b powr ?e))"
        by (simp add: binary64_thirty_second)
      have pow: "js_pow ieee_double (Fin b) (Fin ?e) = binary64 (b powr ?e)"
        using b0 ne by (simp add: ieee_double_def exact_pow_def)
      have "js_sub ieee_double (binary64 (b powr ?e)) (Fin 1) \<noteq> Fin (- 1)"
      proof (cases "binary64 (b powr ?e)")
        case (Fin q)
        then have "- (31 / 32) \<le> q - 1" using p by simp
        then have "js_le (binary64 (- (31 / 32))) (binary64 (q - 1))" by (rule binary64_mono)
        then have "js_le (Fin (- (31 / 32))) (binary64 (q - 1))"
          by (simp add: binary64_thirty_second)
        then have "binary64 (q - 1) \<noteq> Fin (- 1)" by auto
        then show ?thesis using Fin by (simp add: js_sub_def)
      qed (use p in \<open>simp_all add: js_sub_def\<close>)
      then show ?thesis
        using b0 b e pow by (simp add: \<open>v = Fin x\<close> calculateMonthlyRate_def Fin Let_def)
    qed (use base in \<open>simp_all add: \<open>v = Fin x\<close> calculateMonthlyRate_def binary64_twelfth js_sub_def\<close>)
    then show ?thesis using False by (simp add: Fin)
  qed
qed (simp_all add: calculateMonthlyRate_def binary64_twelfth js_sub_def)

text \<open>The error of a rounding is at most half the spacing of the grid.\<close>

lemma nearest_error: "\<bar>nearest x - x\<bar> \<le> 2 powi ulp_exponent x / 2"
proof -
  let ?q = "2 powi ulp_exponent x :: real"
  have q: "0 < ?q" by simp
  have "nearest x - x = (of_int (round_even (x / ?q)) - x / ?q) * ?q"
    by (simp add: nearest_def field_simps)
  then have "\<bar>nearest x - x\<bar> = \<bar>of_int (round_even (x / ?q)) - x / ?q\<bar> * ?q"
    by (simp add: abs_mult)
  also have "\<dots> \<le> 1 / 2 * ?q"
    using round_even_near[of "x / ?q"] by (intro mult_right_mono) simp_all
  finally show ?thesis by simp
qed

lemma ulp_exponent_normal:
  assumes "1 / 2 ^ 1022 \<le> \<bar>x\<bar>"
  shows "2 powi (ulp_exponent x + 52) \<le> \<bar>x\<bar>"
proof -
  have pos: "0 < \<bar>x\<bar>"
  proof -
    have "(0::real) < 1 / 2 ^ 1022" by simp
    with assms show ?thesis by linarith
  qed
  have "(2::real) powi (- 1022) \<le> \<bar>x\<bar>" using assms by (simp add: power_int_minus field_simps)
  then have "log 2 (2 powi (- 1022)) \<le> log 2 \<bar>x\<bar>" using pos by simp
  moreover have "log 2 (2 powi (- 1022)) = - 1022"
  proof -
    have "log 2 (2 powr of_int (- 1022)) = of_int (- 1022)" by simp
    then show ?thesis by (simp only: two_powr_of_int)
  qed
  ultimately have "- 1022 \<le> \<lfloor>log 2 \<bar>x\<bar>\<rfloor>" by (simp add: le_floor_iff)
  then have "ulp_exponent x + 52 = \<lfloor>log 2 \<bar>x\<bar>\<rfloor>" by (simp add: ulp_exponent_def)
  then show ?thesis using floor_log2_bounds(1)[of x] pos by simp
qed

lemma binary64_fixed_bound:
  assumes "binary64 x = Fin x"
  shows "\<bar>x\<bar> < 2 ^ 1024"
  using assms binary64_fixed_nearest[OF assms] by (simp add: binary64_def inf_of_def split: if_splits)

lemma binary64_close:
  assumes "ordinary x"
  shows "close_to (1 / 2 ^ 53) x (binary64 x)"
proof (cases "x = 0")
  case True
  then show ?thesis by (simp add: close_to_def)
next
  case False
  then have x: "1 / 2 ^ 1022 \<le> \<bar>x\<bar>" "\<bar>x\<bar> \<le> 2 ^ 1023" using assms by (simp_all add: ordinary_def)
  let ?q = "2 powi ulp_exponent x :: real"
  have "2 ^ 52 * ?q \<le> \<bar>x\<bar>"
    using ulp_exponent_normal[OF x(1)] by (simp add: power_int_add)
  then have "?q / 2 \<le> \<bar>x\<bar> / 2 ^ 53" by (simp add: field_simps)
  with nearest_error[of x] have err: "\<bar>nearest x - x\<bar> \<le> \<bar>x\<bar> / 2 ^ 53" by linarith
  have "\<bar>nearest x\<bar> \<le> \<bar>x\<bar> + \<bar>x\<bar> / 2 ^ 53" using err by linarith
  also have "\<dots> \<le> 2 ^ 1023 + 2 ^ 1023 / 2 ^ 53" using x(2) by (intro add_mono divide_right_mono) simp_all
  also have "\<dots> < 2 ^ 1024" by simp
  finally have "binary64 x = Fin (nearest x)" by (simp add: binary64_def)
  with err show ?thesis by (simp add: close_to_def)
qed

lemma binary64_sandwich:
  assumes "a \<le> x" "x \<le> b" "binary64 a = Fin a" "binary64 b = Fin b"
  shows "\<exists>v. binary64 x = Fin v \<and> a \<le> v \<and> v \<le> b"
proof -
  have "js_le (Fin a) (binary64 x)" "js_le (binary64 x) (Fin b)"
    using binary64_mono[OF assms(1)] binary64_mono[OF assms(2)] assms(3,4) by simp_all
  then show ?thesis by (cases "binary64 x") simp_all
qed

text \<open>
  The Number next above 1 is \<open>1 + 2 powi -52\<close>, and dividing a Number that is not
  subnormal by a Number greater than 1 gives, after rounding, a smaller Number.
\<close>

lemma double_above_one:
  assumes "binary64 k = Fin k" "1 < k"
  shows "1 + 1 / 2 ^ 52 \<le> k"
proof (rule ccontr)
  assume "\<not> ?thesis"
  then have lt: "k < 1 + 1 / 2 ^ 52" by simp
  have "(2::real) powi 0 \<le> \<bar>k\<bar>" "\<bar>k\<bar> < 2 powi (0 + 1)"
    using assms(2) lt by simp_all
  then have e: "ulp_exponent k = - 52"
    using ulp_exponent_eq[of 0 k] by simp
  define m where "m = round_even (k / 2 powi ulp_exponent k)"
  have k: "k = of_int m / 2 ^ 52"
    using binary64_fixed_nearest[OF assms(1)] by (simp add: nearest_def m_def e power_int_minus field_simps)
  have "of_int (2 ^ 52) < (of_int m :: real)" "(of_int m :: real) < of_int (2 ^ 52 + 1)"
    using assms(2) lt unfolding k by (simp_all add: field_simps)
  then have "2 ^ 52 < m" "m < 2 ^ 52 + 1"
    by (simp_all only: of_int_less_iff)
  then show False by simp
qed

lemma quotient_rounds_below:
  assumes "binary64 v = Fin v" "1 / 2 ^ 1022 \<le> v" "1 + 1 / 2 ^ 52 \<le> k"
  shows "\<exists>w. binary64 (v / k) = Fin w \<and> w < v"
proof -
  let ?e = "ulp_exponent v"
  let ?q = "2 powi ?e :: real"
  have v0: "0 < v"
  proof -
    have "(0::real) < 1 / 2 ^ 1022" by simp
    with assms(2) show ?thesis by linarith
  qed
  have k1: "1 < k"
  proof -
    have "(1::real) < 1 + 1 / 2 ^ 52" by simp
    with assms(3) show ?thesis by linarith
  qed
  have low: "2 ^ 52 * ?q \<le> v"
    using ulp_exponent_normal[of v] assms(2) v0 by (simp add: power_int_add)
  have q0: "0 < v / k" using v0 k1 by simp
  have qle: "v / k \<le> v" using v0 k1 by (simp add: field_simps)
  have "ulp_exponent (v / k) \<le> ?e" using q0 qle by (rule ulp_exponent_mono)
  then have "(2::real) powi ulp_exponent (v / k) \<le> ?q"
    by (intro power_int_increasing) simp_all
  then have up: "nearest (v / k) \<le> v / k + ?q / 2"
    using nearest_error[of "v / k"] by linarith
  have "v / k \<le> v / (1 + 1 / 2 ^ 52)"
    using assms(3) v0 by (intro divide_left_mono) (simp_all add: field_simps)
  also have "\<dots> = v - v / (2 ^ 52 + 1)"
    by (simp add: field_simps)
  finally have a: "v / k \<le> v - v / (2 ^ 52 + 1)" .
  have "?q / 2 < 2 ^ 52 * ?q / (2 ^ 52 + 1)"
    by (simp add: field_simps)
  also have "\<dots> \<le> v / (2 ^ 52 + 1)"
    using low by (intro divide_right_mono) simp_all
  finally have b: "?q / 2 < v / (2 ^ 52 + 1)" .
  from up a b have lt: "nearest (v / k) < v" by linarith
  have "0 \<le> nearest (v / k)" using q0 by (intro nearest_nonneg) simp
  moreover have "v < 2 ^ 1024" using binary64_fixed_bound[OF assms(1)] by simp
  ultimately have "binary64 (v / k) = Fin (nearest (v / k))"
    using lt by (simp add: binary64_def)
  with lt show ?thesis by blast
qed

lemma binary64_one_plus_ulp: "binary64 (1 + 1 / 2 ^ 52) = Fin (1 + 1 / 2 ^ 52)"
  by (rule scaled_integer_representable[of "2 ^ 52 + 1" "- 52"]) (simp_all add: power_int_minus field_simps)

lemma binary64_ulp_of_one: "binary64 (1 / 2 ^ 52) = Fin (1 / 2 ^ 52)"
  by (rule scaled_integer_representable[of 1 "- 52"]) (simp_all add: power_int_minus)

lemma js_pow_double_representable: "representable ieee_double (js_pow ieee_double b y)"
proof -
  have "representable ieee_double (pow_approx ieee_double x z)" for x z
    using binary64_representable by (simp add: ieee_double_def exact_pow_def)
  then show ?thesis
    by (cases b; cases y) (simp_all add: representable_def split: number.splits)
qed

lemma inflationFactor_double_gt_one:
  assumes "annualInflation p = Fin i" "100 / 2 ^ 52 \<le> i" "years p = Fin y" "1 \<le> y"
  shows "js_le (Fin (1 + 1 / 2 ^ 52)) (inflationFactorOf ieee_double p)"
proof -
  have "1 / 2 ^ 52 \<le> i / 100" using assms(2) by (simp add: field_simps)
  then have "js_le (binary64 (1 / 2 ^ 52)) (binary64 (i / 100))" by (rule binary64_mono)
  then have t: "js_le (Fin (1 / 2 ^ 52)) (binary64 (i / 100))"
    by (simp add: binary64_ulp_of_one[simplified])
  have y0: "y \<noteq> 0" "0 < y" using assms(4) by simp_all
  show ?thesis
  proof (cases "binary64 (i / 100)")
    case (Fin t)
    then have "1 + 1 / 2 ^ 52 \<le> 1 + t" using t by simp
    then have "js_le (binary64 (1 + 1 / 2 ^ 52)) (binary64 (1 + t))" by (rule binary64_mono)
    then have b: "js_le (Fin (1 + 1 / 2 ^ 52)) (binary64 (1 + t))"
      by (simp add: binary64_one_plus_ulp[simplified])
    show ?thesis
    proof (cases "binary64 (1 + t)")
      case (Fin b)
      then have b1: "1 + 1 / 2 ^ 52 \<le> b" using \<open>js_le (Fin (1 + 1 / 2 ^ 52)) (binary64 (1 + t))\<close> by simp
      then have b0: "1 \<le> b" "0 < b" "b \<noteq> 0" by simp_all
      obtain z where z: "exact_pow b y = Fin z" "b \<le> z"
      proof (cases "is_integral y")
        case True
        have "1 \<le> \<lfloor>y\<rfloor>" using assms(4) by linarith
        then have "b powi 1 \<le> b powi \<lfloor>y\<rfloor>" using b0(1) by (intro power_int_increasing)
        then show ?thesis using True that by (simp add: exact_pow_def)
      next
        case False
        have "b powr 1 \<le> b powr y" using b0(1) assms(4) by (intro powr_mono)
        then show ?thesis using False that b0(2) by (simp add: exact_pow_def)
      qed
      have "1 + 1 / 2 ^ 52 \<le> z" using b1 z(2) by linarith
      then have "js_le (binary64 (1 + 1 / 2 ^ 52)) (binary64 z)" by (rule binary64_mono)
      then have "js_le (Fin (1 + 1 / 2 ^ 52)) (binary64 z)"
        by (simp add: binary64_one_plus_ulp[simplified])
      then show ?thesis
        using assms(1,3) y0 b0 z(1) \<open>binary64 (i / 100) = Fin t\<close> Fin
        by (simp add: inflationFactorOf_def ieee_double_def)
    qed (use b y0 assms(1,3) \<open>binary64 (i / 100) = Fin t\<close> in \<open>simp_all add: inflationFactorOf_def\<close>)
  qed (use t y0 assms(1,3) in \<open>simp_all add: inflationFactorOf_def\<close>)
qed



lemma binary64_subnormal:
  assumes "x \<noteq> 0" "\<bar>x\<bar> < 1 / 2 ^ 1022" "round_even (x * 2 ^ 1074) = m"
  shows "binary64 x = Fin (of_int m / 2 ^ 1074)"
proof -
  have pos: "0 < \<bar>x\<bar>" using assms(1) by simp
  have "\<bar>x\<bar> < 2 powr (- 1022)" using assms(2) by (simp add: powr_minus field_simps)
  then have "log 2 \<bar>x\<bar> < - 1022" using pos by (simp add: log_less_iff)
  then have "\<lfloor>log 2 \<bar>x\<bar>\<rfloor> < - 1022" by linarith
  then have u: "ulp_exponent x = - 1074" by (simp add: ulp_exponent_def)
  have "x / 2 powi (- 1074) = x * 2 ^ 1074" by (simp add: power_int_minus)
  then have near: "nearest x = of_int m / 2 ^ 1074"
    using assms(3) by (simp add: nearest_def u power_int_minus)
  have "\<bar>x\<bar> * 2 ^ 1074 < 1 / 2 ^ 1022 * 2 ^ 1074"
    using assms(2) by (intro mult_strict_right_mono) simp_all
  moreover have "\<bar>x * 2 ^ 1074\<bar> = \<bar>x\<bar> * 2 ^ 1074" by (simp add: abs_mult)
  ultimately have "\<bar>x * 2 ^ 1074\<bar> < 2 ^ 52" by simp
  with round_even_near[of "x * 2 ^ 1074"] assms(3) have "\<bar>of_int m :: real\<bar> < 2 ^ 52 + 1"
    by linarith
  then have "\<bar>of_int m / 2 ^ 1074 :: real\<bar> < (2 ^ 52 + 1) / 2 ^ 1074"
    by (simp add: divide_strict_right_mono)
  also have "\<dots> < 2 ^ 1024" by simp
  finally show ?thesis by (simp add: binary64_def near)
qed

lemma binary64_least: "binary64 (1 / 2 ^ 1074) = Fin (1 / 2 ^ 1074)"
  by (rule scaled_integer_representable[of 1 "- 1074"]) (simp_all add: power_int_minus)

lemma binary64_least_rounds_up: "binary64 (3 / 4 * (1 / 2 ^ 1074)) = Fin (1 / 2 ^ 1074)"
proof -
  have "round_even (3 / 4) = 1" by (simp add: round_even_def Let_def)
  then have "round_even (3 / 4 * (1 / 2 ^ 1074) * 2 ^ 1074) = 1" by simp
  from binary64_subnormal[OF _ _ this] show ?thesis by simp
qed




lemma binary64_dyadic:
  "binary64 (1 / 16) = Fin (1 / 16)" "binary64 (33 / 32) = Fin (33 / 32)"
  "binary64 (17 / 16) = Fin (17 / 16)" "binary64 (1 / 256) = Fin (1 / 256)"
  "binary64 (1 / 128) = Fin (1 / 128)" "binary64 (127 / 128) = Fin (127 / 128)"
  "binary64 (4191 / 4096) = Fin (4191 / 4096)" "binary64 (95 / 4096) = Fin (95 / 4096)"
  "binary64 (1025 / 1024) = Fin (1025 / 1024)" "binary64 (1 / 1024) = Fin (1 / 1024)"
  using scaled_integer_representable[of 1 "- 4" "1 / 16"]
    scaled_integer_representable[of 33 "- 5" "33 / 32"]
    scaled_integer_representable[of 17 "- 4" "17 / 16"]
    scaled_integer_representable[of 1 "- 8" "1 / 256"]
    scaled_integer_representable[of 1 "- 7" "1 / 128"]
    scaled_integer_representable[of 127 "- 7" "127 / 128"]
    scaled_integer_representable[of 4191 "- 12" "4191 / 4096"]
    scaled_integer_representable[of 95 "- 12" "95 / 4096"]
    scaled_integer_representable[of 1025 "- 10" "1025 / 1024"]
    scaled_integer_representable[of 1 "- 10" "1 / 1024"]
  by (simp_all add: power_int_minus)



lemma twelfth_root_between:
  fixes b :: real
  assumes "4191 / 4096 \<le> b" "b \<le> 17 / 16"
  shows "1025 / 1024 \<le> b powr (6004799503160661 / 2 ^ 56)"
    and "b powr (6004799503160661 / 2 ^ 56) \<le> 17 / 16"
proof -
  let ?e = "6004799503160661 / 2 ^ 56 :: real"
  have b1: "1 \<le> b" using assms(1) by simp
  have "(1025 / 1024 :: real) ^ 16 \<le> 4191 / 4096" by (simp add: power_divide)
  then have "(1025 / 1024 :: real) ^ 16 \<le> b" using assms(1) by linarith
  then have "((1025 / 1024 :: real) ^ 16) powr (1 / 16) \<le> b powr (1 / 16)"
    by (intro powr_mono2) simp_all
  moreover have "((1025 / 1024 :: real) ^ 16) powr (1 / 16) = 1025 / 1024"
  proof -
    have "((1025 / 1024 :: real) ^ 16) = (1025 / 1024) powr real 16"
      by (subst powr_realpow) simp_all
    then have "((1025 / 1024 :: real) ^ 16) powr (1 / 16) = ((1025 / 1024) powr real 16) powr (1 / 16)"
      by simp
    also have "\<dots> = (1025 / 1024) powr (real 16 * (1 / 16))" by (rule powr_powr)
    finally show ?thesis by simp
  qed
  moreover have "b powr (1 / 16) \<le> b powr ?e" using b1 by (intro powr_mono) simp_all
  ultimately show "1025 / 1024 \<le> b powr ?e" by linarith
  have "b powr ?e \<le> b powr 1" using b1 by (intro powr_mono) simp_all
  then show "b powr ?e \<le> 17 / 16" using assms(2) b1 by simp
qed

lemma not_integral_twelfth_double: "\<not> is_integral (6004799503160661 / 2 ^ 56)"
  by (simp add: is_integral_def)

section \<open>Signs in an ordered arithmetic\<close>

lemma ordered_rnd:
  assumes "ordered_arith ar"
  shows "x \<le> y \<Longrightarrow> js_le (rnd ar x) (rnd ar y)"
    and "0 \<le> x \<Longrightarrow> js_le (Fin 0) (rnd ar x)"
    and "x \<le> 0 \<Longrightarrow> js_le (rnd ar x) (Fin 0)"
    and "1 \<le> x \<Longrightarrow> js_le (Fin 1) (rnd ar x)"
    and "x \<le> 1 \<Longrightarrow> js_le (rnd ar x) (Fin 1)"
    and "- 1 \<le> x \<Longrightarrow> js_le (Fin (- 1)) (rnd ar x)"
proof -
  have mono: "js_le (rnd ar a) (rnd ar b)" if "a \<le> b" for a b
    using assms that by (simp add: ordered_arith_def)
  have fixed: "rnd ar 0 = Fin 0" "rnd ar 1 = Fin 1" "rnd ar (- 1) = Fin (- 1)"
    using assms by (simp_all add: ordered_arith_def sound_rounding_def)
  show "x \<le> y \<Longrightarrow> js_le (rnd ar x) (rnd ar y)" by (rule mono)
  show "0 \<le> x \<Longrightarrow> js_le (Fin 0) (rnd ar x)" using mono[of 0 x] fixed by simp
  show "x \<le> 0 \<Longrightarrow> js_le (rnd ar x) (Fin 0)" using mono[of x 0] fixed by simp
  show "1 \<le> x \<Longrightarrow> js_le (Fin 1) (rnd ar x)" using mono[of 1 x] fixed by simp
  show "x \<le> 1 \<Longrightarrow> js_le (rnd ar x) (Fin 1)" using mono[of x 1] fixed by simp
  show "- 1 \<le> x \<Longrightarrow> js_le (Fin (- 1)) (rnd ar x)" using mono[of "- 1" x] fixed by simp
qed

lemma ordered_pow:
  assumes "ordered_arith ar"
  shows "0 < x \<Longrightarrow> js_le (Fin 0) (pow_approx ar x y)"
    and "1 \<le> x \<Longrightarrow> 0 < y \<Longrightarrow> js_le (Fin 1) (pow_approx ar x y)"
    and "0 < x \<Longrightarrow> x \<le> 1 \<Longrightarrow> 0 < y \<Longrightarrow> js_le (pow_approx ar x y) (Fin 1)"
  using assms by (simp_all add: ordered_arith_def)

lemma rnd_nonneg_value:
  assumes "ordered_arith ar" "0 \<le> x" "rnd ar x = Fin v"
  shows "0 \<le> v"
  using ordered_rnd(2)[OF assms(1,2)] assms(3) by simp

lemma rnd_nonpos_value:
  assumes "ordered_arith ar" "x \<le> 0" "rnd ar x = Fin v"
  shows "v \<le> 0"
  using ordered_rnd(3)[OF assms(1,2)] assms(3) by simp

lemma js_pow_nonneg:
  assumes "ordered_arith ar" "\<not> js_le b (Fin 0)" "js_pow ar b e = Fin p"
  shows "0 \<le> p"
proof (cases e)
  case (Fin y)
  show ?thesis
  proof (cases b)
    case (Fin x)
    then have "0 < x" using assms(2) by simp
    then show ?thesis
      using assms(3) ordered_pow(1)[OF assms(1), of x y] Fin \<open>e = Fin y\<close>
      by (auto split: if_splits)
  qed (use assms Fin in \<open>auto split: if_splits\<close>)
next
  case PInf
  then show ?thesis using assms by (cases b) (auto split: if_splits)
next
  case NInf
  then show ?thesis using assms by (cases b) (auto split: if_splits)
next
  case NaN
  then show ?thesis using assms by simp
qed

lemma calculateMonthlyRate_lower:
  assumes "ordered_arith ar" "calculateMonthlyRate ar v = Fin x"
  shows "- 1 \<le> x"
proof (cases "js_le (js_add ar (Fin 1) v) (Fin 0)")
  case True
  then show ?thesis using assms(2) by (simp add: calculateMonthlyRate_def)
next
  case False
  let ?w = "js_pow ar (js_add ar (Fin 1) v) (js_div ar (Fin 1) (Fin 12))"
  have "js_add ar ?w (Fin (- 1)) = Fin x"
    using assms(2) False by (simp add: calculateMonthlyRate_def js_sub_def)
  then obtain p where p: "?w = Fin p" "rnd ar (p + - 1) = Fin x"
    using js_add_finite by blast
  have "0 \<le> p" using js_pow_nonneg[OF assms(1) False p(1)] .
  then show ?thesis
    using ordered_rnd(6)[OF assms(1), of "p + - 1"] p(2) by simp
qed

lemma balanceAfter_nonneg:
  assumes "ordered_arith ar" "0 \<le> P" "0 \<le> c" "representable ar (Fin c)"
      and "js_add ar (Fin 1) r = Fin g" "0 \<le> g"
  shows "js_le (Fin 0) (balanceAfter ar (Fin P) (Fin c) r k) \<and>
         (g = 0 \<longrightarrow> isFinite (balanceAfter ar (Fin P) (Fin c) r k))"
proof (induction k)
  case 0
  show ?case using assms(2) by simp
next
  case (Suc k)
  let ?b = "balanceAfter ar (Fin P) (Fin c) r k"
  have zero: "rnd ar 0 = Fin 0" using assms(1) by (simp add: ordered_arith_def)
  have c: "rnd ar c = Fin c" using assms(4) by (simp add: representable_def)
  from Suc consider x where "?b = Fin x" "0 \<le> x" | "?b = PInf" "0 < g"
    using assms(6) by (cases ?b) auto
  then show ?case
  proof cases
    case 1
    from ordered_rnd(2)[OF assms(1), of "x * g"] 1(2) assms(6)
    consider t where "rnd ar (x * g) = Fin t" "0 \<le> t" | "rnd ar (x * g) = PInf"
      by (auto simp: nonneg_iff)
    then show ?thesis
    proof cases
      case (1 t)
      have "js_le (Fin 0) (rnd ar (t + c))"
        using 1(2) assms(3) by (intro ordered_rnd(2)[OF assms(1)]) simp
      moreover have "isFinite (rnd ar (t + c))" if "g = 0"
        using that 1(1) zero c by simp
      ultimately show ?thesis
        using \<open>?b = Fin x\<close> 1(1) assms(5) zero c by auto
    next
      case 2
      moreover have "g \<noteq> 0" using 2 zero by auto
      ultimately show ?thesis using \<open>?b = Fin x\<close> assms(5) by simp
    qed
  next
    case 2
    then show ?thesis using assms(5) by (simp add: inf_of_def)
  qed
qed

lemma growthFactor_bounds:
  assumes "ordered_arith ar" "- 1 \<le> x" "0 \<le> k"
      and "js_pow ar (js_add ar (Fin 1) (Fin x)) (Fin (of_int k)) = Fin g"
  shows "0 \<le> g" and "0 < x \<Longrightarrow> 1 \<le> g" and "x < 0 \<Longrightarrow> g \<le> 1"
proof -
  have "0 \<le> g \<and> (0 < x \<longrightarrow> 1 \<le> g) \<and> (x < 0 \<longrightarrow> g \<le> 1)"
  proof (cases "k = 0")
    case True
    then show ?thesis using assms(4) by simp
  next
    case False
    then have k: "0 < (of_int k :: real)" "(of_int k :: real) \<noteq> 0" using assms(3) by simp_all
    from ordered_rnd(2)[OF assms(1), of "1 + x"] assms(2)
    consider b where "rnd ar (1 + x) = Fin b" "0 \<le> b" | "rnd ar (1 + x) = PInf"
      by (auto simp: nonneg_iff)
    then show ?thesis
    proof cases
      case (1 b)
      have hi: "1 \<le> b" if "0 < x"
        using ordered_rnd(4)[OF assms(1), of "1 + x"] that 1(1) by simp
      have lo: "b \<le> 1" if "x < 0"
        using ordered_rnd(5)[OF assms(1), of "1 + x"] that 1(1) by simp
      show ?thesis
      proof (cases "b = 0")
        case True
        then show ?thesis using assms(4) 1(1) k hi by (auto split: if_splits)
      next
        case False
        then have b: "0 < b" using 1(2) by simp
        have g: "pow_approx ar b (of_int k) = Fin g"
          using assms(4) 1(1) k b by (simp add: is_integral_def)
        show ?thesis
          using ordered_pow(1)[OF assms(1) b, of "of_int k"]
            ordered_pow(2)[OF assms(1) _ k(1), of b]
            ordered_pow(3)[OF assms(1) b _ k(1)] hi lo
          by (auto simp: g)
      qed
    next
      case 2
      then show ?thesis using assms(4) k by simp
    qed
  qed
  then show "0 \<le> g" and "0 < x \<Longrightarrow> 1 \<le> g" and "x < 0 \<Longrightarrow> g \<le> 1" by simp_all
qed

lemma futureValueFormula_nonneg:
  assumes "ordered_arith ar" "0 \<le> P" "0 \<le> c" "- 1 \<le> x" "0 \<le> k"
      and "futureValueFormula ar (Fin P) (Fin c) (Fin x) (Fin (of_int k)) = Fin v"
  shows "0 \<le> v"
proof (cases "js_lt (js_abs (Fin x)) (rnd ar (1 / 10 ^ 12))")
  case True
  then have "js_add ar (Fin P) (js_mul ar (Fin c) (Fin (of_int k))) = Fin v"
    using assms(6) by (simp add: futureValueFormula_def Let_def)
  then obtain t where t: "rnd ar (c * of_int k) = Fin t" "rnd ar (P + t) = Fin v"
    using js_add_finite[of ar "Fin P"] by fastforce
  have "0 \<le> t" using assms(3,5) by (intro rnd_nonneg_value[OF assms(1) _ t(1)]) simp
  then show ?thesis using assms(2) by (intro rnd_nonneg_value[OF assms(1) _ t(2)]) simp
next
  case False
  let ?G = "js_pow ar (js_add ar (Fin 1) (Fin x)) (Fin (of_int k))"
  have "js_add ar (js_mul ar (Fin P) ?G)
          (js_mul ar (Fin c) (js_div ar (js_sub ar ?G (Fin 1)) (Fin x))) = Fin v"
    using assms(6) False by (simp add: futureValueFormula_def Let_def)
  then obtain a b where a: "js_mul ar (Fin P) ?G = Fin a"
    and b: "js_mul ar (Fin c) (js_div ar (js_sub ar ?G (Fin 1)) (Fin x)) = Fin b"
    and v: "rnd ar (a + b) = Fin v"
    using js_add_finite by blast
  from a obtain g where g: "?G = Fin g" and a': "rnd ar (P * g) = Fin a"
    using js_mul_finite[of ar "Fin P"] by fastforce
  note G = growthFactor_bounds[OF assms(1,4,5) g]
  have "0 \<le> a" using assms(2) G(1) by (intro rnd_nonneg_value[OF assms(1) _ a']) simp
  from b obtain d where d: "js_div ar (js_sub ar ?G (Fin 1)) (Fin x) = Fin d"
    and b': "rnd ar (c * d) = Fin b"
    using js_mul_finite[of ar "Fin c"] by fastforce
  from d obtain n where n: "js_sub ar ?G (Fin 1) = Fin n" and x0: "x \<noteq> 0"
    and d': "rnd ar (n / x) = Fin d"
    using js_div_finite_dividend by blast
  have n': "rnd ar (g - 1) = Fin n" using n unfolding g by (simp add: js_sub_def)
  have "0 \<le> n / x"
  proof (cases "0 < x")
    case True
    then have "0 \<le> n" using G(2) by (intro rnd_nonneg_value[OF assms(1) _ n']) simp
    with True show ?thesis by simp
  next
    case False
    then have neg: "x < 0" using x0 by simp
    then have "n \<le> 0" using G(3) by (intro rnd_nonpos_value[OF assms(1) _ n']) simp
    with neg show ?thesis by (simp add: divide_nonpos_neg)
  qed
  then have "0 \<le> d" by (rule rnd_nonneg_value[OF assms(1) _ d'])
  then have "0 \<le> b" using assms(3) by (intro rnd_nonneg_value[OF assms(1) _ b']) simp
  with \<open>0 \<le> a\<close> show ?thesis by (intro rnd_nonneg_value[OF assms(1) _ v]) simp
qed

lemma inflationFactor_ge_one:
  assumes "ordered_arith ar" "annualInflation p = Fin i" "0 \<le> i" "years p = Fin y" "0 < y"
  shows "js_le (Fin 1) (inflationFactorOf ar p)"
proof -
  from ordered_rnd(2)[OF assms(1), of "i / 100"] assms(3)
  consider t where "rnd ar (i / 100) = Fin t" "0 \<le> t" | "rnd ar (i / 100) = PInf"
    by (auto simp: nonneg_iff)
  then show ?thesis
  proof cases
    case (1 t)
    from ordered_rnd(4)[OF assms(1), of "1 + t"] 1(2)
    consider b where "rnd ar (1 + t) = Fin b" "1 \<le> b" | "rnd ar (1 + t) = PInf"
      by (cases "rnd ar (1 + t)") auto
    then show ?thesis
    proof cases
      case (1 b)
      then show ?thesis
        using ordered_pow(2)[OF assms(1) 1(2) assms(5)] assms(2,4,5) \<open>rnd ar (i / 100) = Fin t\<close>
        by (simp add: inflationFactorOf_def)
    next
      case 2
      then show ?thesis
        using assms(2,4,5) \<open>rnd ar (i / 100) = Fin t\<close> by (simp add: inflationFactorOf_def)
    qed
  next
    case 2
    then show ?thesis using assms(2,4,5) by (simp add: inflationFactorOf_def)
  qed
qed

section \<open>Accurate arithmetic\<close>

lemma exact_pow_powr: "0 < x \<Longrightarrow> exact_pow x y = Fin (x powr y)"
proof (cases "is_integral y")
  case True
  assume "0 < x"
  then have "x powr of_int \<lfloor>y\<rfloor> = x powi \<lfloor>y\<rfloor>" by (intro powr_real_of_int') simp_all
  moreover have "of_int \<lfloor>y\<rfloor> = y" using True unfolding is_integral_def .
  ultimately show ?thesis using True by (simp add: exact_pow_def)
qed (simp add: exact_pow_def)

lemma accurate_exact: "accurate exact"
  by (simp add: accurate_def ordered_arith_exact close_to_def exact_pow_powr)

lemma accurate_ieee_double: "accurate ieee_double"
proof -
  have "close_to (1 / 2 ^ 52) (x powr y) (pow_approx ieee_double x y)"
    if "0 < x" "ordinary (x powr y)" for x y
  proof -
    from binary64_close[OF that(2)] obtain z where
      z: "binary64 (x powr y) = Fin z" "\<bar>z - x powr y\<bar> \<le> 1 / 2 ^ 53 * \<bar>x powr y\<bar>"
      by (auto simp: close_to_def)
    have "1 / 2 ^ 53 * \<bar>x powr y\<bar> \<le> 1 / 2 ^ 52 * \<bar>x powr y\<bar>"
      by (intro mult_right_mono) simp_all
    with z(2) have "\<bar>z - x powr y\<bar> \<le> 1 / 2 ^ 52 * \<bar>x powr y\<bar>" by linarith
    moreover have "pow_approx ieee_double x y = Fin z"
      using that(1) z(1) by (simp add: ieee_double_def exact_pow_powr)
    ultimately show ?thesis unfolding close_to_def by blast
  qed
  then show ?thesis
    using binary64_close by (simp add: accurate_def ordered_arith_ieee_double)
qed

text \<open>Factors of a nonnegative value, and what a rounding does to them.\<close>

lemma roundoff_bounds: "0 < roundoff" "roundoff \<le> 1 / 2 ^ 53" "roundoff < 1"
  by (simp_all add: roundoff_def)

lemma between_refl [simp]: "between 1 1 x x"
  by (simp add: between_def)

lemma between_weaken:
  assumes "between lo hi x y" "0 \<le> x" "lo' \<le> lo" "hi \<le> hi'"
  shows "between lo' hi' x y"
proof -
  have "lo' * x \<le> lo * x" "hi * x \<le> hi' * x"
    using assms(2-4) by (simp_all add: mult_right_mono)
  then show ?thesis using assms(1) by (auto simp: between_def)
qed

lemma between_mult:
  assumes "between lo hi x y" "0 \<le> a"
  shows "between lo hi (a * x) (a * y)"
proof -
  have "a * (lo * x) \<le> a * y" "a * y \<le> a * (hi * x)"
    using assms by (simp_all add: between_def mult_left_mono)
  then show ?thesis by (simp add: between_def mult.left_commute)
qed

lemma between_add:
  assumes "between lo hi x y" "between lo hi x' y'"
  shows "between lo hi (x + x') (y + y')"
  using assms by (simp add: between_def distrib_left)

lemma between_nonneg:
  assumes "between lo hi x y" "0 \<le> lo" "0 \<le> x"
  shows "0 \<le> y"
proof -
  have "0 \<le> lo * x" using assms(2,3) by simp
  then show ?thesis using assms(1) by (simp add: between_def)
qed

lemma between_trans:
  assumes "between lo hi x y" "between lo' hi' y z" "0 \<le> lo'" "0 \<le> hi'"
  shows "between (lo * lo') (hi * hi') x z"
proof -
  have "lo' * (lo * x) \<le> lo' * y" "hi' * y \<le> hi' * (hi * x)"
    using assms by (simp_all add: between_def mult_left_mono)
  then show ?thesis
    using assms(2) by (simp add: between_def mult.assoc mult.commute mult.left_commute)
qed

lemma close_between:
  assumes "\<bar>y - x\<bar> \<le> e * x"
  shows "between (1 - e) (1 + e) x y"
  using assms by (simp add: between_def abs_le_iff algebra_simps)

lemma between_ordinary:
  assumes "between lo hi x y" "1 / 2 \<le> lo" "hi \<le> 2" "sized (1 / 2 ^ 1000) (2 ^ 1000) x"
  shows "ordinary y"
proof (cases "x = 0")
  case True
  then show ?thesis using assms(1) by (simp add: between_def ordinary_def)
next
  case False
  then have x: "1 / 2 ^ 1000 \<le> x" "x \<le> 2 ^ 1000" using assms(4) by (simp_all add: sized_def)
  have x0: "0 \<le> x"
  proof -
    have "(0::real) \<le> 1 / 2 ^ 1000" by simp
    with x(1) show ?thesis by linarith
  qed
  have "1 / 2 * x \<le> lo * x" "hi * x \<le> 2 * x"
    using mult_right_mono[OF assms(2) x0] mult_right_mono[OF assms(3) x0] by simp_all
  then have y: "1 / 2 * x \<le> y" "y \<le> 2 * x" using assms(1) by (simp_all add: between_def)
  have "1 / 2 ^ 1022 \<le> 1 / 2 * (1 / 2 ^ 1000 :: real)" by simp
  also have "\<dots> \<le> 1 / 2 * x" using x(1) by simp
  finally have lo: "1 / 2 ^ 1022 \<le> y" using y(1) by linarith
  have "2 * x \<le> 2 * (2 ^ 1000 :: real)" using x(2) by simp
  also have "\<dots> \<le> 2 ^ 1023" by simp
  finally have hi: "y \<le> 2 ^ 1023" using y(2) by linarith
  have "0 \<le> y" using y(1) x0 by linarith
  then show ?thesis using lo hi by (simp add: ordinary_def)
qed

lemma between_relative:
  assumes "between a b W f" "between a' b' W y" "0 \<le> W" "0 < a'" "0 \<le> e"
      and "b - a' \<le> a' * e" "b' - a \<le> a' * e"
  shows "\<bar>f - y\<bar> \<le> e * y"
proof -
  have y: "a' * W \<le> y" "y \<le> b' * W" and f: "a * W \<le> f" "f \<le> b * W"
    using assms(1,2) by (simp_all add: between_def)
  have "e * (a' * W) \<le> e * y" using y(1) assms(5) by (rule mult_left_mono)
  then have ey: "a' * e * W \<le> e * y" by (simp add: mult.assoc mult.left_commute)
  have "(b - a') * W \<le> a' * e * W" "(b' - a) * W \<le> a' * e * W"
    using assms(3,6,7) by (simp_all add: mult_right_mono)
  then have "b * W - a' * W \<le> e * y" "b' * W - a * W \<le> e * y"
    using ey by (simp_all add: algebra_simps)
  then show ?thesis using y f by (simp add: abs_le_iff)
qed

lemma rnd_close:
  assumes "accurate ar" "ordinary t"
  shows "\<exists>y. rnd ar t = Fin y \<and> \<bar>y - t\<bar> \<le> roundoff * \<bar>t\<bar>"
  using assms by (auto simp: accurate_def close_to_def roundoff_def)

lemma rnd_between:
  assumes "accurate ar" "between lo hi x t" "0 \<le> lo" "0 \<le> x" "ordinary t"
  shows "\<exists>y. rnd ar t = Fin y \<and> between (lo * (1 - roundoff)) (hi * (1 + roundoff)) x y"
proof -
  have t0: "0 \<le> t" using assms(2,3,4) by (rule between_nonneg)
  from rnd_close[OF assms(1,5)] obtain y where
    y: "rnd ar t = Fin y" "\<bar>y - t\<bar> \<le> roundoff * \<bar>t\<bar>"
    by blast
  have "t - roundoff * t \<le> y" "y \<le> t + roundoff * t"
    using y(2) t0 by (simp_all add: abs_le_iff)
  then have "t * (1 - roundoff) \<le> y" "y \<le> t * (1 + roundoff)"
    by (simp_all add: algebra_simps)
  moreover have "lo * x * (1 - roundoff) \<le> t * (1 - roundoff)"
    using assms(2) roundoff_bounds by (intro mult_right_mono) (simp_all add: between_def)
  moreover have "t * (1 + roundoff) \<le> hi * x * (1 + roundoff)"
    using assms(2) roundoff_bounds by (intro mult_right_mono) (simp_all add: between_def)
  ultimately have "between (lo * (1 - roundoff)) (hi * (1 + roundoff)) x y"
    by (simp add: between_def mult.assoc mult.commute mult.left_commute)
  with y(1) show ?thesis by blast
qed

lemma pow_close:
  assumes "accurate ar" "0 < q" "ordinary (q ^ n)"
  shows "\<exists>g. pow_approx ar q (real n) = Fin g \<and> \<bar>g - q ^ n\<bar> \<le> 2 * roundoff * q ^ n"
proof -
  have p: "q powr real n = q ^ n" using assms(2) by (rule powr_realpow)
  then have "ordinary (q powr real n)" using assms(3) by simp
  with assms(1,2) have "close_to (1 / 2 ^ 52) (q powr real n) (pow_approx ar q (real n))"
    by (simp add: accurate_def)
  then obtain g where "pow_approx ar q (real n) = Fin g" "\<bar>g - q ^ n\<bar> \<le> 1 / 2 ^ 52 * \<bar>q ^ n\<bar>"
    unfolding close_to_def p by blast
  moreover have "1 / 2 ^ 52 * \<bar>q ^ n\<bar> = 2 * roundoff * q ^ n"
    using assms(2) by (simp add: roundoff_def)
  ultimately show ?thesis by auto
qed

lemma roundoff_power_lower: "1 - real k * roundoff \<le> (1 - roundoff) ^ k"
  using Bernoulli_inequality[of "- roundoff" k] roundoff_bounds by simp

lemma roundoff_power_upper:
  assumes "real k * roundoff \<le> 1 / 2"
  shows "(1 + roundoff) ^ k \<le> 1 + 2 * (real k * roundoff)"
proof -
  let ?u = roundoff
  define a where "a = real k * ?u"
  have a: "0 \<le> a" "a \<le> 1 / 2" using assms roundoff_bounds by (simp_all add: a_def)
  have low: "1 - a \<le> (1 - ?u) ^ k"
    using roundoff_power_lower[of k] by (simp add: a_def)
  have pos: "0 < 1 - a" using a by linarith
  have "(1 + ?u) * (1 - ?u) = 1 - ?u * ?u" by (simp add: algebra_simps)
  also have "\<dots> \<le> 1" by simp
  finally have "((1 + ?u) * (1 - ?u)) ^ k \<le> 1 ^ k"
    using roundoff_bounds by (intro power_mono) simp_all
  then have prod: "(1 + ?u) ^ k * (1 - ?u) ^ k \<le> 1" by (simp add: power_mult_distrib)
  have "0 \<le> (1 + ?u) ^ k" using roundoff_bounds by simp
  then have "(1 + ?u) ^ k * (1 - a) \<le> (1 + ?u) ^ k * (1 - ?u) ^ k"
    using low by (intro mult_left_mono)
  with prod have "(1 + ?u) ^ k * (1 - a) \<le> 1" by linarith
  then have "(1 + ?u) ^ k \<le> 1 / (1 - a)"
    using pos by (simp add: field_simps)
  also have "\<dots> \<le> 1 + 2 * a"
  proof -
    have "0 \<le> a * (1 - 2 * a)" using a by (intro mult_nonneg_nonneg) simp_all
    then have "1 \<le> (1 + 2 * a) * (1 - a)" by (simp add: algebra_simps)
    then show ?thesis using pos by (simp add: field_simps)
  qed
  finally show ?thesis by (simp add: a_def)
qed

lemma roundoff_power_small:
  assumes "k \<le> 2000"
  shows "1 / 2 \<le> (1 - roundoff) ^ k" "(1 + roundoff) ^ k \<le> 2"
proof -
  have "real k \<le> 2000" using assms by simp
  then have "real k * roundoff \<le> 2000 * roundoff"
    using roundoff_bounds by (intro mult_right_mono) simp_all
  also have "\<dots> \<le> 1 / 4" by (simp add: roundoff_def)
  finally have k: "real k * roundoff \<le> 1 / 4" .
  show "1 / 2 \<le> (1 - roundoff) ^ k"
    using roundoff_power_lower[of k] k by linarith
  show "(1 + roundoff) ^ k \<le> 2"
    using roundoff_power_upper[of k] k by linarith
qed

text \<open>Sizes of sums and products, and of the recurrence over the reals.\<close>

lemma sized_weaken:
  assumes "sized a b x" "a' \<le> a" "b \<le> b'"
  shows "sized a' b' x"
  using assms by (auto simp: sized_def)


lemma sized_mult:
  assumes "sized a b x" "sized a' b' y" "0 \<le> a" "0 \<le> a'"
  shows "sized (a * a') (b * b') (x * y)"
proof (cases "x = 0 \<or> y = 0")
  case False
  then have x: "a \<le> x" "x \<le> b" and y: "a' \<le> y" "y \<le> b'"
    using assms(1,2) by (simp_all add: sized_def)
  have "a * a' \<le> x * y" using x(1) y(1) assms(3,4) by (intro mult_mono) simp_all
  moreover have "x * y \<le> b * b'" using x y assms(3,4) by (intro mult_mono) simp_all
  ultimately show ?thesis by (simp add: sized_def)
qed (auto simp: sized_def)

lemma sized_add:
  assumes "sized a b x" "sized a' b' y" "0 \<le> a" "0 \<le> a'" "0 \<le> b" "0 \<le> b'"
  shows "sized (min a a') (b + b') (x + y)"
proof -
  have x0: "0 \<le> x" and y0: "0 \<le> y"
    using assms(1-4) by (auto simp: sized_def)
  have xb: "x \<le> b" and yb: "y \<le> b'"
    using assms(1,2,5,6) by (auto simp: sized_def)
  show ?thesis
  proof (cases "x = 0 \<and> y = 0")
    case False
    then have "a \<le> x \<or> a' \<le> y" using assms(1,2) by (auto simp: sized_def)
    then have "min a a' \<le> x + y" using x0 y0 by auto
    moreover have "x + y \<le> b + b'" using xb yb by simp
    ultimately show ?thesis by (simp add: sized_def)
  qed (simp add: sized_def)
qed

lemma growth_sum_nonneg: "0 \<le> q \<Longrightarrow> 0 \<le> growth_sum q k"
  by (induction k) simp_all

lemma growth_sum_ge_one: "0 \<le> q \<Longrightarrow> 0 < k \<Longrightarrow> 1 \<le> growth_sum q k"
  by (cases k) (simp_all add: growth_sum_nonneg)

lemma growth_sum_identity: "(q - 1) * growth_sum q k = q ^ k - 1"
  by (induction k) (simp_all add: algebra_simps)

lemma growth_sum_ge_power: "0 \<le> q \<Longrightarrow> q ^ k \<le> growth_sum q (Suc k)"
proof (induction k)
  case (Suc k)
  have "q ^ Suc k = q ^ k * q" by simp
  also have "\<dots> \<le> growth_sum q (Suc k) * q"
    using Suc by (intro mult_right_mono) simp_all
  finally show ?case by simp
qed simp

lemma growth_sum_sum: "growth_sum q k = (\<Sum>j<k. q ^ j)"
proof (induction k)
  case (Suc k)
  have "(\<Sum>j<Suc k. q ^ j) = q ^ 0 + (\<Sum>j<k. q ^ Suc j)" by (rule sum.lessThan_Suc_shift)
  also have "(\<Sum>j<k. q ^ Suc j) = (\<Sum>j<k. q ^ j) * q"
    by (simp add: sum_distrib_left mult.commute)
  finally show ?case using Suc by simp
qed simp

lemma growth_sum_upper:
  assumes "\<forall>j\<le>n. q ^ j \<le> G" "k \<le> n"
  shows "growth_sum q k \<le> real k * G"
proof -
  have "(\<Sum>j<k. q ^ j) \<le> (\<Sum>j<k. G)"
    using assms by (intro sum_mono) simp
  then show ?thesis by (simp add: growth_sum_sum)
qed

lemma reference_balance_0 [simp]: "reference_balance P c q 0 = P"
  by (simp add: reference_balance_def)

lemma reference_balance_Suc:
  "reference_balance P c q (Suc k) = reference_balance P c q k * q + c"
  by (simp add: reference_balance_def algebra_simps)

lemma reference_balance_nonneg:
  "0 \<le> P \<Longrightarrow> 0 \<le> c \<Longrightarrow> 0 \<le> q \<Longrightarrow> 0 \<le> reference_balance P c q k"
  by (simp add: reference_balance_def growth_sum_nonneg)

lemma growth_sum_sized:
  assumes "0 < q" "\<forall>j\<le>n. q ^ j \<le> 2 ^ 301" "k \<le> n" "n \<le> 600"
  shows "sized 1 (600 * 2 ^ 301) (growth_sum q k)"
proof (cases "k = 0")
  case False
  then have "1 \<le> growth_sum q k" using assms(1) by (intro growth_sum_ge_one) simp_all
  moreover have "growth_sum q k \<le> real k * 2 ^ 301"
    using assms(2,3) by (rule growth_sum_upper)
  moreover have "real k * 2 ^ 301 \<le> 600 * 2 ^ 301"
    using assms(3,4) by (intro mult_right_mono) simp_all
  ultimately show ?thesis by (simp add: sized_def)
qed (simp add: sized_def)

lemma reference_balance_sized:
  assumes "0 < q" "\<forall>j\<le>n. 1 / 2 ^ 301 \<le> q ^ j \<and> q ^ j \<le> 2 ^ 301" "k \<le> n" "n \<le> 600"
      and "sized (1 / 2 ^ 300) (2 ^ 300) P" "sized (1 / 2 ^ 300) (2 ^ 300) c"
  shows "sized (1 / 2 ^ 601) (601 * 2 ^ 601) (reference_balance P c q k)"
proof -
  have "sized (1 / 2 ^ 301) (2 ^ 301) (q ^ k)" using assms(2,3) by (simp add: sized_def)
  from sized_mult[OF assms(5) this]
  have a: "sized (1 / 2 ^ 601) (2 ^ 601) (P * q ^ k)" by simp
  have "sized 1 (600 * 2 ^ 301) (growth_sum q k)"
    using assms(1-4) by (intro growth_sum_sized[of q n]) simp_all
  from sized_mult[OF assms(6) this]
  have b: "sized (1 / 2 ^ 300) (600 * 2 ^ 601) (c * growth_sum q k)" by simp
  from sized_add[OF a b] show ?thesis
    by (simp add: reference_balance_def)
qed

lemma power_range:
  fixes Q :: real
  assumes "0 < Q" "lo \<le> Q ^ n" "Q ^ n \<le> hi" "lo \<le> 1" "1 \<le> hi" "j \<le> n"
  shows "lo \<le> Q ^ j \<and> Q ^ j \<le> hi"
proof (cases "1 \<le> Q")
  case True
  then have "1 \<le> Q ^ j" "Q ^ j \<le> Q ^ n"
    using assms(6) by (simp_all add: one_le_power power_increasing)
  then show ?thesis using assms(3,4) by linarith
next
  case False
  then have "Q ^ j \<le> 1" "Q ^ n \<le> Q ^ j"
    using assms(1,6) by (simp_all add: power_le_one power_decreasing)
  then show ?thesis using assms(2,5) by linarith
qed

lemma rounded_base_powers:
  assumes "0 < Q" "\<bar>q - Q\<bar> \<le> roundoff * Q"
      and "1 / 2 ^ 300 \<le> Q ^ n" "Q ^ n \<le> 2 ^ 300" "n \<le> 600"
  shows "0 < q" and "\<forall>j\<le>n. 1 / 2 ^ 301 \<le> q ^ j \<and> q ^ j \<le> 2 ^ 301"
proof -
  have q: "(1 - roundoff) * Q \<le> q" "q \<le> (1 + roundoff) * Q"
    using assms(2) by (simp_all add: abs_le_iff algebra_simps)
  have "0 < (1 - roundoff) * Q" using assms(1) roundoff_bounds by simp
  with q(1) show q0: "0 < q" by linarith
  show "\<forall>j\<le>n. 1 / 2 ^ 301 \<le> q ^ j \<and> q ^ j \<le> 2 ^ 301"
  proof (intro allI impI)
    fix j assume j: "j \<le> n"
    then have j': "j \<le> 2000" using assms(5) by simp
    have Qj: "1 / 2 ^ 300 \<le> Q ^ j" "Q ^ j \<le> 2 ^ 300"
      using power_range[OF assms(1,3,4) _ _ j] by simp_all
    have Q0: "0 \<le> Q ^ j" using assms(1) by simp
    have "((1 - roundoff) * Q) ^ j \<le> q ^ j"
      using q(1) assms(1) roundoff_bounds by (intro power_mono) simp_all
    moreover have "1 / 2 * (1 / 2 ^ 300) \<le> (1 - roundoff) ^ j * Q ^ j"
      using roundoff_power_small(1)[OF j'] Qj(1) by (intro mult_mono) simp_all
    ultimately have lo: "1 / 2 ^ 301 \<le> q ^ j" by (simp add: power_mult_distrib)
    have "q ^ j \<le> ((1 + roundoff) * Q) ^ j"
      using q(2) q0 by (intro power_mono) simp_all
    moreover have "(1 + roundoff) ^ j * Q ^ j \<le> 2 * 2 ^ 300"
      using roundoff_power_small(2)[OF j'] Qj(2) Q0 by (intro mult_mono) simp_all
    ultimately have "q ^ j \<le> 2 ^ 301" by (simp add: power_mult_distrib)
    with lo show "1 / 2 ^ 301 \<le> q ^ j \<and> q ^ j \<le> 2 ^ 301" by simp
  qed
qed

text \<open>
  The balance of the loop after \<open>k\<close> months is the balance of the recurrence over the reals
  up to \<open>2 * k\<close> roundings.
\<close>

lemma balanceAfter_between:
  assumes "accurate ar" "js_add ar (Fin 1) (Fin r) = Fin q" "0 < q"
      and "\<forall>j\<le>n. 1 / 2 ^ 301 \<le> q ^ j \<and> q ^ j \<le> 2 ^ 301" "n \<le> 600"
      and "0 \<le> P" "0 \<le> c" "sized (1 / 2 ^ 300) (2 ^ 300) P" "sized (1 / 2 ^ 300) (2 ^ 300) c"
  shows "k \<le> n \<Longrightarrow>
           \<exists>y. balanceAfter ar (Fin P) (Fin c) (Fin r) k = Fin y \<and>
                between ((1 - roundoff) ^ (2 * k)) ((1 + roundoff) ^ (2 * k))
                  (reference_balance P c q k) y"
proof (induction k)
  case 0
  show ?case by simp
next
  case (Suc k)
  let ?lo = "(1 - roundoff) ^ (2 * k)" and ?hi = "(1 + roundoff) ^ (2 * k)"
  let ?x = "reference_balance P c q k"
  from Suc obtain y where y: "balanceAfter ar (Fin P) (Fin c) (Fin r) k = Fin y"
    and yb: "between ?lo ?hi ?x y"
    by auto
  have k: "k \<le> n" "Suc k \<le> n" "2 * k + 2 \<le> 2000" using Suc.prems assms(5) by simp_all
  have x0: "0 \<le> ?x" using assms(3,6,7) by (intro reference_balance_nonneg) simp_all
  have lo0: "0 \<le> ?lo" using roundoff_bounds by simp
  have hi1: "1 \<le> ?hi" using roundoff_bounds by (intro one_le_power) simp
  have lo1: "?lo \<le> 1" using roundoff_bounds by (intro power_le_one) simp_all
  have u: "0 \<le> 1 - roundoff" "1 - roundoff \<le> 1" "1 \<le> 1 + roundoff"
    using roundoff_bounds by simp_all
  have b1: "between ?lo ?hi (?x * q) (y * q)"
    using between_mult[OF yb, of q] assms(3) by (simp add: mult.commute)
  have "sized (1 / 2 ^ 601) (601 * 2 ^ 601) ?x"
    using assms(3,4) k(1) assms(5,8,9) by (rule reference_balance_sized)
  moreover have "sized (1 / 2 ^ 301) (2 ^ 301) q"
    using assms(4) k(2) by (auto simp: sized_def dest: spec[of _ 1])
  ultimately have "sized (1 / 2 ^ 601 * (1 / 2 ^ 301)) (601 * 2 ^ 601 * 2 ^ 301) (?x * q)"
    by (intro sized_mult) simp_all
  then have s1: "sized (1 / 2 ^ 1000) (2 ^ 1000) (?x * q)"
    by (rule sized_weaken) simp_all
  have "ordinary (y * q)"
    using b1 roundoff_power_small[of "2 * k"] k(3) s1 by (intro between_ordinary) simp_all
  from rnd_between[OF assms(1) b1 lo0 _ this] x0 assms(3)
  obtain m where m: "rnd ar (y * q) = Fin m"
    and bm: "between (?lo * (1 - roundoff)) (?hi * (1 + roundoff)) (?x * q) m"
    by auto
  have "between (?lo * (1 - roundoff)) (?hi * (1 + roundoff)) c c"
  proof (rule between_weaken[OF between_refl assms(7)])
    show "?lo * (1 - roundoff) \<le> 1" using lo0 lo1 u by (simp add: mult_le_one)
    show "1 \<le> ?hi * (1 + roundoff)" using mult_mono[OF hi1 u(3)] by simp
  qed
  from between_add[OF bm this]
  have b2: "between (?lo * (1 - roundoff)) (?hi * (1 + roundoff))
              (reference_balance P c q (Suc k)) (m + c)"
    by (simp add: reference_balance_Suc)
  have pw: "?lo * (1 - roundoff) = (1 - roundoff) ^ (2 * k + 1)"
    "?hi * (1 + roundoff) = (1 + roundoff) ^ (2 * k + 1)"
    by simp_all
  have "sized (1 / 2 ^ 601) (601 * 2 ^ 601) (reference_balance P c q (Suc k))"
    using assms(3,4) k(2) assms(5,8,9) by (rule reference_balance_sized)
  then have s2: "sized (1 / 2 ^ 1000) (2 ^ 1000) (reference_balance P c q (Suc k))"
    by (rule sized_weaken) simp_all
  have "ordinary (m + c)"
    using b2 roundoff_power_small[of "2 * k + 1"] k(3) s2
    unfolding pw by (intro between_ordinary) simp_all
  from rnd_between[OF assms(1) b2 _ _ this]
  obtain y' where y': "rnd ar (m + c) = Fin y'"
    and yb': "between (?lo * (1 - roundoff) * (1 - roundoff)) (?hi * (1 + roundoff) * (1 + roundoff))
                (reference_balance P c q (Suc k)) y'"
    using lo0 u assms(3,6,7) by (auto simp: reference_balance_nonneg)
  have "balanceAfter ar (Fin P) (Fin c) (Fin r) (Suc k) = Fin y'"
    using assms(2) m y' by (simp add: y)
  moreover have "between ((1 - roundoff) ^ (2 * Suc k)) ((1 + roundoff) ^ (2 * Suc k))
                   (reference_balance P c q (Suc k)) y'"
    using yb' by (simp add: mult.assoc mult.commute mult.left_commute)
  ultimately show ?case by blast
qed

text \<open>
  The test \<open>\<bar>monthlyRate\<bar> < 1e-12\<close> of the closed form compares with the Number that the
  literal \<open>1e-12\<close> denotes. When it fails the rate is at least half of \<open>1e-12\<close>, and \<open>drift\<close>
  is small; in double precision that Number is below \<open>1e-12\<close>, so that the test fails for
  every rate of a magnitude of at least \<open>1e-12\<close>.
\<close>

lemma threshold_lower:
  assumes "accurate ar" "\<not> js_lt (js_abs (Fin r)) (rnd ar (1 / 10 ^ 12))"
  shows "1 / (2 * 10 ^ 12) \<le> \<bar>r\<bar>"
proof -
  have "ordinary (1 / 10 ^ 12)" by (simp add: ordinary_def)
  from rnd_close[OF assms(1) this] obtain t where
    t: "rnd ar (1 / 10 ^ 12) = Fin t" "\<bar>t - 1 / 10 ^ 12\<bar> \<le> roundoff * \<bar>1 / 10 ^ 12\<bar>"
    by blast
  have "roundoff * \<bar>1 / 10 ^ 12 :: real\<bar> \<le> 1 / (2 * 10 ^ 12)" by (simp add: roundoff_def)
  with t(2) have "1 / 10 ^ 12 - 1 / (2 * 10 ^ 12) \<le> t" by linarith
  then have "1 / (2 * 10 ^ 12) \<le> t" by simp
  moreover have "t \<le> \<bar>r\<bar>" using assms(2) t(1) by simp
  ultimately show ?thesis by linarith
qed

lemma threshold_double:
  assumes "1 / 10 ^ 12 \<le> \<bar>r\<bar>"
  shows "\<not> js_lt (js_abs (Fin r)) (rnd ieee_double (1 / 10 ^ 12))"
proof -
  have "(4951760157141521 / 2 ^ 92 :: real) \<le> 1 / 10 ^ 12" by simp
  with assms have "4951760157141521 / 2 ^ 92 \<le> \<bar>r\<bar>" by linarith
  then show ?thesis using binary64_threshold by simp
qed

lemma drift_bounds:
  assumes "1 / (2 * 10 ^ 12) \<le> \<bar>r\<bar>"
  shows "0 \<le> drift r" "drift r \<le> 1 / 100"
proof -
  have "(0::real) < 1 / (2 * 10 ^ 12)" by simp
  with assms have r0: "0 < \<bar>r\<bar>" by linarith
  then have "1 / \<bar>r\<bar> \<le> 2 * 10 ^ 12" using assms by (simp add: field_simps)
  moreover have "0 \<le> 1 / \<bar>r\<bar>" by simp
  ultimately have "0 \<le> 1 + 1 / \<bar>r\<bar>" "1 + 1 / \<bar>r\<bar> \<le> 1 + 2 * 10 ^ 12" by simp_all
  then have "0 \<le> 5 * (1 + 1 / \<bar>r\<bar>) * roundoff"
    "5 * (1 + 1 / \<bar>r\<bar>) * roundoff \<le> 5 * (1 + 2 * 10 ^ 12) * roundoff"
    using roundoff_bounds by (simp_all add: mult_right_mono)
  moreover have "5 * (1 + 2 * 10 ^ 12) * roundoff \<le> 1 / 100" by (simp add: roundoff_def)
  ultimately show "0 \<le> drift r" "drift r \<le> 1 / 100" unfolding drift_def by linarith+
qed

lemma drift_moderate:
  assumes "1 / 10 ^ 9 \<le> \<bar>r\<bar>"
  shows "drift r \<le> 5 * (1 + 10 ^ 9) * roundoff"
proof -
  have "(0::real) < 1 / 10 ^ 9" by simp
  with assms have r0: "0 < \<bar>r\<bar>" by linarith
  then have "1 / \<bar>r\<bar> \<le> 10 ^ 9" using assms by (simp add: field_simps)
  then have "5 * (1 + 1 / \<bar>r\<bar>) * roundoff \<le> 5 * (1 + 10 ^ 9) * roundoff"
    using roundoff_bounds by (intro mult_right_mono mult_left_mono) simp_all
  then show ?thesis by (simp add: drift_def)
qed

text \<open>
  The closed form is that balance up to \<open>drift\<close> and nine roundings: the identity
  \<open>(q - 1) * growth_sum q n = q ^ n - 1\<close> turns the error of \<open>Math.pow\<close> and that of
  \<open>1 + monthlyRate\<close> into errors of the quotient relative to \<open>growth_sum q n\<close>.
\<close>

lemma drift_numbers_aux:
  fixes d :: real
  assumes "0 \<le> d" "d \<le> 1 / 100"
  shows
  "0 \<le> d" "d \<le> 1 / 100"
  "1 / 2 \<le> 1 - 2 * roundoff" "1 + 2 * roundoff \<le> 2"
  "1 / 2 \<le> 1 - d" "1 / 2 \<le> (1 - d) * (1 - roundoff)" "(1 + d) * (1 + roundoff) \<le> 2"
  "1 / 2 \<le> (1 - d) * (1 - roundoff) * (1 - roundoff)"
  "(1 + d) * (1 + roundoff) * (1 + roundoff) \<le> 2"
  "1 - d - 7 * roundoff \<le> (1 - 2 * roundoff) * (1 - roundoff)"
  "(1 + 2 * roundoff) * (1 + roundoff) \<le> 1 + d + 7 * roundoff"
  "1 - d - 7 * roundoff \<le> (1 - d) * (1 - roundoff) * (1 - roundoff) * (1 - roundoff)"
  "(1 + d) * (1 + roundoff) * (1 + roundoff) * (1 + roundoff) \<le> 1 + d + 7 * roundoff"
  "1 / 2 \<le> 1 - d - 7 * roundoff" "1 + d + 7 * roundoff \<le> 2"
  "1 - d - 9 * roundoff \<le> (1 - d - 7 * roundoff) * (1 - roundoff)"
  "(1 + d + 7 * roundoff) * (1 + roundoff) \<le> 1 + d + 9 * roundoff"
  using assms by (simp_all add: roundoff_def algebra_simps)

lemma drift_numbers:
  assumes "1 / (2 * 10 ^ 12) \<le> \<bar>r\<bar>"
  shows
  "0 \<le> drift r" "drift r \<le> 1 / 100"
  "1 / 2 \<le> 1 - 2 * roundoff" "1 + 2 * roundoff \<le> 2"
  "1 / 2 \<le> 1 - drift r" "1 / 2 \<le> (1 - drift r) * (1 - roundoff)" "(1 + drift r) * (1 + roundoff) \<le> 2"
  "1 / 2 \<le> (1 - drift r) * (1 - roundoff) * (1 - roundoff)"
  "(1 + drift r) * (1 + roundoff) * (1 + roundoff) \<le> 2"
  "1 - drift r - 7 * roundoff \<le> (1 - 2 * roundoff) * (1 - roundoff)"
  "(1 + 2 * roundoff) * (1 + roundoff) \<le> 1 + drift r + 7 * roundoff"
  "1 - drift r - 7 * roundoff \<le> (1 - drift r) * (1 - roundoff) * (1 - roundoff) * (1 - roundoff)"
  "(1 + drift r) * (1 + roundoff) * (1 + roundoff) * (1 + roundoff) \<le> 1 + drift r + 7 * roundoff"
  "1 / 2 \<le> 1 - drift r - 7 * roundoff" "1 + drift r + 7 * roundoff \<le> 2"
  "1 - drift r - 9 * roundoff \<le> (1 - drift r - 7 * roundoff) * (1 - roundoff)"
  "(1 + drift r + 7 * roundoff) * (1 + roundoff) \<le> 1 + drift r + 9 * roundoff"
  by (rule drift_numbers_aux[OF drift_bounds[OF assms]])+

lemma quotient_drift:
  assumes "0 < q" "0 < 1 + r" "\<bar>q - (1 + r)\<bar> \<le> roundoff * (1 + r)"
      and "\<bar>g - q ^ n\<bar> \<le> 2 * roundoff * q ^ n" "0 < n" "r \<noteq> 0"
  shows "between (1 - drift r) (1 + drift r) (growth_sum q n) ((g - 1) / r)"
proof -
  define S where "S = growth_sum q n"
  define Q where "Q = 1 + r"
  define u where "u = roundoff"
  have u: "0 < u" "u \<le> 1" using roundoff_bounds by (simp_all add: u_def)
  have S1: "1 \<le> S" using assms(1,5) unfolding S_def by (intro growth_sum_ge_one) simp_all
  have r0: "0 < \<bar>r\<bar>" and r0': "r \<noteq> 0" using assms(6) by simp_all
  obtain k where n: "n = Suc k" using assms(5) by (cases n) simp_all
  have "q ^ k \<le> growth_sum q (Suc k)" using assms(1) by (intro growth_sum_ge_power) simp
  then have "q * q ^ k \<le> q * S" using assms(1) unfolding S_def n by (intro mult_left_mono) simp_all
  then have qn: "q ^ n \<le> q * S" by (simp add: n)
  have q2: "q \<le> 2 * Q"
  proof -
    have "q \<le> Q + u * Q" using assms(3) by (simp add: Q_def u_def abs_le_iff)
    also have "u * Q \<le> 1 * Q" using u assms(2) by (intro mult_right_mono) (simp_all add: Q_def)
    finally show ?thesis by simp
  qed
  have Q0: "0 < Q" using assms(2) by (simp add: Q_def)
  have Qr: "Q \<le> (1 + 1 / \<bar>r\<bar>) * \<bar>r\<bar>"
  proof -
    have "Q \<le> 1 + \<bar>r\<bar>" by (simp add: Q_def)
    moreover have "(1 + 1 / \<bar>r\<bar>) * \<bar>r\<bar> = \<bar>r\<bar> + 1" using r0 by (simp add: field_simps)
    ultimately show ?thesis by simp
  qed
  have inv0: "0 \<le> 1 + 1 / \<bar>r\<bar>" by simp
  define eq where "eq = q - Q"
  define eg where "eg = g - q ^ n"
  have eq: "\<bar>eq\<bar> \<le> u * Q" using assms(3) by (simp add: eq_def Q_def u_def)
  have eg: "\<bar>eg\<bar> \<le> 2 * u * (q * S)"
  proof -
    have "\<bar>eg\<bar> \<le> 2 * u * q ^ n" using assms(4) by (simp add: eg_def u_def)
    also have "\<dots> \<le> 2 * u * (q * S)" using qn u by (intro mult_left_mono) simp_all
    finally show ?thesis .
  qed
  have "(q - 1) * S = q ^ n - 1" unfolding S_def by (rule growth_sum_identity)
  then have "g - 1 = (q - 1) * S + eg" by (simp add: eg_def)
  also have "q - 1 = r + eq" by (simp add: eq_def Q_def)
  finally have g1: "g - 1 = r * S + (eq * S + eg)" by (simp add: algebra_simps)
  then have "(g - 1) / r - S = (eq * S + eg) / r" using r0' by (simp add: field_simps)
  then have "\<bar>(g - 1) / r - S\<bar> = \<bar>eq * S + eg\<bar> / \<bar>r\<bar>" by simp
  also have "\<dots> \<le> (5 * u * Q * S) / \<bar>r\<bar>"
  proof (rule divide_right_mono)
    have "\<bar>eq * S\<bar> \<le> u * Q * S"
      using eq S1 by (simp add: abs_mult mult_right_mono)
    moreover have "2 * u * (q * S) \<le> 2 * u * (2 * Q * S)"
      using q2 u S1 by (intro mult_left_mono mult_right_mono) simp_all
    ultimately have "\<bar>eq * S\<bar> + \<bar>eg\<bar> \<le> u * Q * S + 2 * u * (2 * Q * S)" using eg by linarith
    then show "\<bar>eq * S + eg\<bar> \<le> 5 * u * Q * S" by (simp add: algebra_simps)
  qed simp
  also have "\<dots> \<le> (5 * u * ((1 + 1 / \<bar>r\<bar>) * \<bar>r\<bar>) * S) / \<bar>r\<bar>"
    using Qr u S1 by (intro divide_right_mono mult_left_mono mult_right_mono) simp_all
  also have "\<dots> = drift r * S" using r0' by (simp add: drift_def u_def)
  finally have "\<bar>(g - 1) / r - S\<bar> \<le> drift r * S" .
  then show ?thesis unfolding S_def by (rule close_between)
qed

lemma futureValueFormula_between:
  assumes "accurate ar" "js_add ar (Fin 1) (Fin r) = Fin q" "0 < q"
      and "0 < 1 + r" "\<bar>q - (1 + r)\<bar> \<le> roundoff * (1 + r)"
      and "\<forall>j\<le>n. 1 / 2 ^ 301 \<le> q ^ j \<and> q ^ j \<le> 2 ^ 301" "0 < n" "n \<le> 600"
      and "0 \<le> P" "0 \<le> c" "sized (1 / 2 ^ 300) (2 ^ 300) P" "sized (1 / 2 ^ 300) (2 ^ 300) c"
      and "\<not> js_lt (js_abs (Fin r)) (rnd ar (1 / 10 ^ 12))"
  shows "\<exists>f. futureValueFormula ar (Fin P) (Fin c) (Fin r) (Fin (real n)) = Fin f \<and>
             between (1 - drift r - 9 * roundoff) (1 + drift r + 9 * roundoff)
               (reference_balance P c q n) f"
proof -
  define S where "S = growth_sum q n"
  have rl: "1 / (2 * 10 ^ 12) \<le> \<bar>r\<bar>" using assms(1,13) by (rule threshold_lower)
  have "(0::real) < 1 / (2 * 10 ^ 12)" by simp
  with rl have r0: "0 < \<bar>r\<bar>" by linarith
  then have r0': "r \<noteq> 0" by auto
  note drift_numbers = drift_numbers[OF rl]
  have S1: "1 \<le> S" using assms(3,7) unfolding S_def by (intro growth_sum_ge_one) simp_all
  have S0: "0 \<le> S" using S1 by simp
  have qn: "1 / 2 ^ 301 \<le> q ^ n" "q ^ n \<le> 2 ^ 301" using assms(6) by auto
  have qn0: "0 \<le> q ^ n" using assms(3) by simp
  have sq: "sized (1 / 2 ^ 301) (2 ^ 301) (q ^ n)" using qn by (simp add: sized_def)
  have sS: "sized 1 (600 * 2 ^ 301) S"
    unfolding S_def using assms(3,6,8) by (intro growth_sum_sized[of q n]) simp_all
  have oq: "ordinary (q ^ n)"
  proof -
    have "1 / 2 ^ 1022 \<le> (1 / 2 ^ 301 :: real)" "(2 ^ 301 :: real) \<le> 2 ^ 1023" by simp_all
    then show ?thesis using qn qn0 by (simp add: ordinary_def)
  qed
  from pow_close[OF assms(1,3) oq] obtain g where
    g: "pow_approx ar q (real n) = Fin g" "\<bar>g - q ^ n\<bar> \<le> 2 * roundoff * q ^ n"
    by blast
  have gf: "js_pow ar (js_add ar (Fin 1) (Fin r)) (Fin (real n)) = Fin g"
    using assms(2,3,7) g(1) by simp
  have bg: "between (1 - 2 * roundoff) (1 + 2 * roundoff) (q ^ n) g"
    using g(2) by (rule close_between)
  have t1: "\<exists>t. rnd ar (P * g) = Fin t \<and>
              between (1 - drift r - 7 * roundoff) (1 + drift r + 7 * roundoff) (P * q ^ n) t"
  proof -
    have b: "between (1 - 2 * roundoff) (1 + 2 * roundoff) (P * q ^ n) (P * g)"
      using bg assms(9) by (rule between_mult)
    have "sized (1 / 2 ^ 300 * (1 / 2 ^ 301)) (2 ^ 300 * 2 ^ 301) (P * q ^ n)"
      using assms(11) sq by (intro sized_mult) simp_all
    then have "sized (1 / 2 ^ 1000) (2 ^ 1000) (P * q ^ n)" by (rule sized_weaken) simp_all
    with b have "ordinary (P * g)" using drift_numbers by (intro between_ordinary)
    from rnd_between[OF assms(1) b _ _ this] obtain t where
      t: "rnd ar (P * g) = Fin t"
        "between ((1 - 2 * roundoff) * (1 - roundoff)) ((1 + 2 * roundoff) * (1 + roundoff))
           (P * q ^ n) t"
      using drift_numbers assms(9) qn0 by auto
    have "between (1 - drift r - 7 * roundoff) (1 + drift r + 7 * roundoff) (P * q ^ n) t"
      using t(2) _ drift_numbers(10,11) by (rule between_weaken) (simp add: assms(9) qn0)
    with t(1) show ?thesis by blast
  qed
  define Dq where "Dq = (g - 1) / r"
  have bD: "between (1 - drift r) (1 + drift r) S Dq"
    unfolding S_def Dq_def using assms(3,4,5) g(2) assms(7) r0' by (rule quotient_drift)
  have D: "1 / 2 \<le> Dq"
  proof -
    have "1 / 2 * 1 \<le> (1 - drift r) * S" using drift_numbers(5) S1 by (intro mult_mono) simp_all
    moreover have "(1 - drift r) * S \<le> Dq" using bD by (simp add: between_def)
    ultimately show ?thesis by linarith
  qed
  have g1: "g - 1 = r * Dq" using r0' by (simp add: Dq_def)
  have abs_g1: "\<bar>g - 1\<bar> = \<bar>r\<bar> * Dq"
  proof -
    have "\<bar>r * Dq\<bar> = \<bar>r\<bar> * \<bar>Dq\<bar>" by (rule abs_mult)
    moreover have "\<bar>Dq\<bar> = Dq" using D by simp
    ultimately show ?thesis by (simp add: g1)
  qed
  have og: "ordinary (g - 1)"
  proof -
    have "1 / (2 * 10 ^ 12) * (1 / 2) \<le> \<bar>r\<bar> * Dq"
      using rl D by (intro mult_mono) simp_all
    moreover have "1 / 2 ^ 1022 \<le> 1 / (2 * 10 ^ 12) * (1 / 2 :: real)" by simp
    ultimately have lo: "1 / 2 ^ 1022 \<le> \<bar>g - 1\<bar>" unfolding abs_g1 by linarith
    have "g \<le> (1 + 2 * roundoff) * q ^ n" using bg by (simp add: between_def)
    also have "\<dots> \<le> 2 * 2 ^ 301" using drift_numbers(4) qn(2) qn0 by (intro mult_mono) simp_all
    finally have "g \<le> 2 * 2 ^ 301" .
    moreover have "0 \<le> g" using drift_numbers(3) qn0 by (intro between_nonneg[OF bg]) simp_all
    ultimately have "\<bar>g - 1\<bar> \<le> 2 * 2 ^ 301 + 1" by simp
    also have "\<dots> \<le> (2 ^ 1023 :: real)" by simp
    finally show ?thesis using lo by (simp add: ordinary_def)
  qed
  from rnd_close[OF assms(1) og] obtain s where
    s: "rnd ar (g - 1) = Fin s" "\<bar>s - (g - 1)\<bar> \<le> roundoff * \<bar>g - 1\<bar>"
    by blast
  have sub: "js_sub ar (Fin g) (Fin 1) = Fin s" using s(1) by (simp add: js_sub_def)
  have bq: "between ((1 - drift r) * (1 - roundoff)) ((1 + drift r) * (1 + roundoff)) S (s / r)"
  proof -
    have "s / r - Dq = (s - (g - 1)) / r" by (simp add: Dq_def diff_divide_distrib)
    then have "\<bar>s / r - Dq\<bar> = \<bar>s - (g - 1)\<bar> / \<bar>r\<bar>" by simp
    also have "\<dots> \<le> (roundoff * \<bar>g - 1\<bar>) / \<bar>r\<bar>" using s(2) by (intro divide_right_mono) simp_all
    also have "\<dots> = roundoff * Dq" unfolding abs_g1 using r0' by simp
    finally have "between (1 - roundoff) (1 + roundoff) Dq (s / r)"
      by (rule close_between)
    from between_trans[OF bD this] show ?thesis using roundoff_bounds by simp
  qed
  have sS': "sized (1 / 2 ^ 1000) (2 ^ 1000) S" using sS by (rule sized_weaken) simp_all
  have "ordinary (s / r)" using bq drift_numbers(6,7) sS' by (rule between_ordinary)
  from rnd_between[OF assms(1) bq _ S0 this] obtain d where
    d: "rnd ar (s / r) = Fin d"
      "between ((1 - drift r) * (1 - roundoff) * (1 - roundoff))
         ((1 + drift r) * (1 + roundoff) * (1 + roundoff)) S d"
    using drift_numbers(6) by auto
  have quot: "js_div ar (Fin s) (Fin r) = Fin d" using d(1) r0' by simp
  have t2: "\<exists>t. rnd ar (c * d) = Fin t \<and>
              between (1 - drift r - 7 * roundoff) (1 + drift r + 7 * roundoff) (c * S) t"
  proof -
    have b: "between ((1 - drift r) * (1 - roundoff) * (1 - roundoff))
         ((1 + drift r) * (1 + roundoff) * (1 + roundoff)) (c * S) (c * d)"
      using d(2) assms(10) by (rule between_mult)
    have "sized (1 / 2 ^ 300 * 1) (2 ^ 300 * (600 * 2 ^ 301)) (c * S)"
      using assms(12) sS by (intro sized_mult) simp_all
    then have "sized (1 / 2 ^ 1000) (2 ^ 1000) (c * S)" by (rule sized_weaken) simp_all
    with b have "ordinary (c * d)" using drift_numbers(8,9) by (intro between_ordinary)
    from rnd_between[OF assms(1) b _ _ this] obtain t where
      t: "rnd ar (c * d) = Fin t"
        "between ((1 - drift r) * (1 - roundoff) * (1 - roundoff) * (1 - roundoff))
           ((1 + drift r) * (1 + roundoff) * (1 + roundoff) * (1 + roundoff)) (c * S) t"
      using drift_numbers(8) assms(10) S0 by auto
    have "between (1 - drift r - 7 * roundoff) (1 + drift r + 7 * roundoff) (c * S) t"
      using t(2) _ drift_numbers(12,13) by (rule between_weaken) (simp add: assms(10) S0)
    with t(1) show ?thesis by blast
  qed
  from t1 obtain a where a: "rnd ar (P * g) = Fin a"
    "between (1 - drift r - 7 * roundoff) (1 + drift r + 7 * roundoff) (P * q ^ n) a" by blast
  from t2 obtain b where b: "rnd ar (c * d) = Fin b"
    "between (1 - drift r - 7 * roundoff) (1 + drift r + 7 * roundoff) (c * S) b" by blast
  have bs: "between (1 - drift r - 7 * roundoff) (1 + drift r + 7 * roundoff)
              (reference_balance P c q n) (a + b)"
    using between_add[OF a(2) b(2)] by (simp add: reference_balance_def S_def)
  have W0: "0 \<le> reference_balance P c q n"
    using assms(3,9,10) by (intro reference_balance_nonneg) simp_all
  have "sized (1 / 2 ^ 601) (601 * 2 ^ 601) (reference_balance P c q n)"
    using assms(3,6) _ assms(8,11,12) by (rule reference_balance_sized) simp
  then have "sized (1 / 2 ^ 1000) (2 ^ 1000) (reference_balance P c q n)"
    by (rule sized_weaken) simp_all
  with bs have "ordinary (a + b)" using drift_numbers(14,15) by (intro between_ordinary)
  from rnd_between[OF assms(1) bs _ W0 this] obtain f where
    f: "rnd ar (a + b) = Fin f"
      "between ((1 - drift r - 7 * roundoff) * (1 - roundoff))
         ((1 + drift r + 7 * roundoff) * (1 + roundoff)) (reference_balance P c q n) f"
    using drift_numbers(14) by auto
  have "between (1 - drift r - 9 * roundoff) (1 + drift r + 9 * roundoff)
          (reference_balance P c q n) f"
    using f(2) W0 drift_numbers(16,17) by (rule between_weaken)
  moreover have "futureValueFormula ar (Fin P) (Fin c) (Fin r) (Fin (real n)) = Fin f"
    using assms(13) gf sub quot a(1) b(1) f(1)
    by (simp add: futureValueFormula_def Let_def del: js_pow.simps js_abs.simps)
  ultimately show ?thesis by blast
qed

text \<open>
  Hence the two agree within \<open>drift\<close> and 2500 roundings, which is below \<open>1e-6\<close> when
  \<open>\<bar>monthlyRate\<bar> \<ge> 1e-9\<close>; and the future value is not subnormal.
\<close>

lemma agreement_numbers:
  fixes d :: real
  assumes "0 \<le> d" "d \<le> 1 / 100"
  shows "0 < 1 - 1200 * roundoff" "0 \<le> d + 2500 * roundoff"
    "1 + d + 9 * roundoff - (1 - 1200 * roundoff) \<le> (1 - 1200 * roundoff) * (d + 2500 * roundoff)"
    "1 + 2400 * roundoff - (1 - d - 9 * roundoff) \<le> (1 - 1200 * roundoff) * (d + 2500 * roundoff)"
    "d \<le> 5 * (1 + 10 ^ 9) * roundoff \<Longrightarrow> d + 2500 * roundoff \<le> 1 / 10 ^ 6"
  using assms by (simp_all add: roundoff_def algebra_simps)

lemma closed_form_close:
  assumes "accurate ar" "initialCapital p = Fin P" "monthlyContribution p = Fin c"
      and "representable ar (Fin P)" "0 \<le> P" "0 \<le> c"
      and "sized (1 / 2 ^ 300) (2 ^ 300) P" "sized (1 / 2 ^ 300) (2 ^ 300) c"
      and "totalMonthsOf ar p = Fin (of_int n)" "1 \<le> n" "n \<le> 600"
      and "monthlyRateOf ar p = Fin r" "\<not> js_lt (js_abs (Fin r)) (rnd ar (1 / 10 ^ 12))"
      and "1 / 2 ^ 300 \<le> (1 + r) ^ nat n" "(1 + r) ^ nat n \<le> 2 ^ 300"
  shows "\<exists>res f w. generateMonthlySeries ar p = Some res \<and>
           futureValueFormula ar (initialCapital p) (monthlyContribution p)
             (monthlyRate (summary res)) (totalMonths (summary res)) = Fin f \<and>
           futureValue (summary res) = Fin f \<and>
           totalValue (last (series res)) = Fin w \<and>
           \<bar>f - w\<bar> \<le> \<bar>w\<bar> * (drift r + 2500 * roundoff) \<and>
           (1 / 10 ^ 9 \<le> \<bar>r\<bar> \<longrightarrow> \<bar>f - w\<bar> \<le> \<bar>w\<bar> / 10 ^ 6) \<and>
           (0 < P \<longrightarrow> 1 / 2 ^ 1022 \<le> f)"
proof -
  define N where "N = nat n"
  have N: "0 < N" "N \<le> 600" "of_int n = real N" using assms(10,11) by (simp_all add: N_def)
  have ordered: "ordered_arith ar" and sound: "sound_rounding ar"
    using assms(1) by (simp_all add: accurate_def ordered_arith_def)
  define Q where "Q = 1 + r"
  have "- 1 \<le> r"
    using calculateMonthlyRate_lower[OF ordered] assms(12) by (simp add: monthlyRateOf_def)
  then have "0 \<le> Q" by (simp add: Q_def)
  moreover have "Q \<noteq> 0"
  proof
    assume "Q = 0"
    then have "Q ^ N = 0" using N(1) by simp
    moreover have "(0::real) < 1 / 2 ^ 300" by simp
    moreover have "1 / 2 ^ 300 \<le> Q ^ N" using assms(14) by (simp add: Q_def N_def)
    ultimately show False by linarith
  qed
  ultimately have Q0: "0 < Q" by simp
  have QN: "1 / 2 ^ 300 \<le> Q ^ N" "Q ^ N \<le> 2 ^ 300"
    using assms(14,15) by (simp_all add: Q_def N_def)
  have Q1: "1 / 2 ^ 300 \<le> Q ^ 1 \<and> Q ^ 1 \<le> 2 ^ 300"
    using N(1) by (intro power_range[OF Q0 QN]) simp_all
  have "ordinary Q"
  proof -
    have "1 / 2 ^ 1022 \<le> (1 / 2 ^ 300 :: real)" "(2 ^ 300 :: real) \<le> 2 ^ 1023" by simp_all
    then show ?thesis using Q1 Q0 by (simp add: ordinary_def)
  qed
  from rnd_close[OF assms(1) this] obtain q where
    q: "rnd ar Q = Fin q" "\<bar>q - Q\<bar> \<le> roundoff * Q"
    using Q0 by auto
  have base: "js_add ar (Fin 1) (Fin r) = Fin q" using q(1) by (simp add: Q_def)
  note qb = rounded_base_powers[OF Q0 q(2) QN N(2)]
  from balanceAfter_between[OF assms(1) base qb N(2) assms(5,6,7,8), of N]
  obtain y where y: "balanceAfter ar (Fin P) (Fin c) (Fin r) N = Fin y"
    and yb: "between ((1 - roundoff) ^ (2 * N)) ((1 + roundoff) ^ (2 * N))
               (reference_balance P c q N) y"
    by auto
  have W0: "0 \<le> reference_balance P c q N"
    using qb(1) assms(5,6) by (intro reference_balance_nonneg) simp_all
  have "real (2 * N) * roundoff \<le> 1200 * roundoff"
    using N(2) roundoff_bounds by (intro mult_right_mono) simp_all
  then have "1 - 1200 * roundoff \<le> (1 - roundoff) ^ (2 * N)"
    "(1 + roundoff) ^ (2 * N) \<le> 1 + 2400 * roundoff"
    using roundoff_power_lower[of "2 * N"] roundoff_power_upper[of "2 * N"]
    by (simp_all add: roundoff_def)
  from between_weaken[OF yb W0 this]
  have yb': "between (1 - 1200 * roundoff) (1 + 2400 * roundoff) (reference_balance P c q N) y" .
  from futureValueFormula_between[OF assms(1) base qb(1) _ _ qb(2) N(1,2) assms(5,6,7,8,13)]
  obtain f where f: "futureValueFormula ar (Fin P) (Fin c) (Fin r) (Fin (real N)) = Fin f"
    and fb: "between (1 - drift r - 9 * roundoff) (1 + drift r + 9 * roundoff)
               (reference_balance P c q N) f"
    using Q0 q(2) by (auto simp: Q_def)
  have rl: "1 / (2 * 10 ^ 12) \<le> \<bar>r\<bar>" using assms(1,13) by (rule threshold_lower)
  note dr = drift_bounds[OF rl]
  note an = agreement_numbers[OF dr]
  have y0: "0 \<le> y"
    using yb' _ W0 by (rule between_nonneg) (simp add: roundoff_def)
  have "\<bar>f - y\<bar> \<le> (drift r + 2500 * roundoff) * y"
    using fb yb' W0 an(1,2,3,4) by (rule between_relative)
  then have close: "\<bar>f - y\<bar> \<le> \<bar>y\<bar> * (drift r + 2500 * roundoff)"
    using y0 by (simp add: mult.commute)
  have close': "\<bar>f - y\<bar> \<le> \<bar>y\<bar> / 10 ^ 6" if "1 / 10 ^ 9 \<le> \<bar>r\<bar>"
  proof -
    have "drift r + 2500 * roundoff \<le> 1 / 10 ^ 6" using drift_moderate[OF that] by (rule an(5))
    then have "\<bar>y\<bar> * (drift r + 2500 * roundoff) \<le> \<bar>y\<bar> * (1 / 10 ^ 6)"
      by (intro mult_left_mono) simp_all
    with close show ?thesis by simp
  qed
  have pos: "1 / 2 ^ 1022 \<le> f" if "0 < P"
  proof -
    have "1 / 2 ^ 300 \<le> P" using that assms(7) by (simp add: sized_def)
    moreover have "1 / 2 ^ 301 \<le> q ^ N" using qb(2) by simp
    ultimately have "1 / 2 ^ 300 * (1 / 2 ^ 301) \<le> P * q ^ N" by (intro mult_mono) simp_all
    moreover have "0 \<le> c * growth_sum q N"
      using assms(6) qb(1) by (simp add: growth_sum_nonneg)
    ultimately have W: "1 / 2 ^ 601 \<le> reference_balance P c q N"
      by (simp add: reference_balance_def)
    have "1 / 2 \<le> 1 - drift r - 9 * roundoff" using dr by (simp add: roundoff_def)
    then have "1 / 2 * (1 / 2 ^ 601) \<le> (1 - drift r - 9 * roundoff) * reference_balance P c q N"
      using W by (intro mult_mono) simp_all
    moreover have "(1 - drift r - 9 * roundoff) * reference_balance P c q N \<le> f"
      using fb by (simp add: between_def)
    moreover have "1 / 2 ^ 1022 \<le> 1 / 2 * (1 / 2 ^ 601 :: real)" by simp
    ultimately show ?thesis by linarith
  qed
  have rep: "representable ar (initialCapital p)" using assms(2,4) by simp
  from series_finite_months[OF sound rep assms(9)] obtain res where
    res: "generateMonthlySeries ar p = Some res"
    and rows: "series res = map (seriesEntry ar (Fin P) (Fin c) (Fin r)) [1..<Suc N]"
    by (auto simp: assms(2,3,12) N_def)
  have "last (series res) = seriesEntry ar (Fin P) (Fin c) (Fin r) N"
    using N(1) by (simp add: rows last_map)
  then have last: "totalValue (last (series res)) = Fin y"
    by (simp add: seriesEntry_def y)
  have form: "futureValueFormula ar (initialCapital p) (monthlyContribution p)
                (monthlyRateOf ar p) (totalMonthsOf ar p) = Fin f"
    using f by (simp add: assms(2,3,9,12) N(3))
  have fv: "futureValue (summary res) = Fin f"
    using futureValue_finite_formula[OF res form] .
  have "futureValueFormula ar (initialCapital p) (monthlyContribution p)
             (monthlyRate (summary res)) (totalMonths (summary res)) = Fin f"
    using form generateMonthlySeries_Some(2,3)[OF res] by simp
  with res fv last close close' pos show ?thesis by blast
qed

section \<open>Valid inputs\<close>

lemma valid_input_fields:
  assumes "validateInputs p = []"
  shows "\<exists>P c g f i y. initialCapital p = Fin P \<and> 0 \<le> P \<and>
           monthlyContribution p = Fin c \<and> 0 \<le> c \<and>
           grossAnnualReturn p = Fin g \<and> annualFee p = Fin f \<and> 0 \<le> f \<and>
           annualInflation p = Fin i \<and> 0 \<le> i \<and>
           years p = Fin (of_int y) \<and> 1 \<le> y \<and> y \<le> 50"
proof -
  obtain P c g f i y where p: "initialCapital p = Fin P" "monthlyContribution p = Fin c"
    "grossAnnualReturn p = Fin g" "annualFee p = Fin f" "annualInflation p = Fin i"
    "years p = Fin y"
    using assms by (auto simp: validateInputs_def isFinite_iff split: if_splits)
  have bounds: "0 \<le> P" "0 \<le> c" "0 \<le> f" "0 \<le> i" "1 \<le> y" "y \<le> 50"
    and int: "is_integral y"
    using assms by (auto simp: validateInputs_def p split: if_splits)
  have y: "y = of_int \<lfloor>y\<rfloor>" using int unfolding is_integral_def by (rule sym)
  have "1 \<le> \<lfloor>y\<rfloor>" "\<lfloor>y\<rfloor> \<le> 50"
    using bounds(5,6) by (simp_all add: le_floor_iff floor_le_iff)
  with bounds(1-4) p y show ?thesis by metis
qed

text \<open>For a valid input \<open>years * 12\<close> is an integer from 12 to 600, in both arithmetics.\<close>

lemma valid_input_months:
  assumes "validateInputs p = []"
  shows "\<exists>k. 12 \<le> k \<and> k \<le> 600 \<and> totalMonthsOf exact p = Fin (of_int k) \<and>
           totalMonthsOf ieee_double p = Fin (of_int k)"
proof -
  obtain y where y: "years p = Fin (of_int y)" "1 \<le> y" "y \<le> 50"
    using valid_input_fields[OF assms] by blast
  have "binary64 (of_int (y * 12)) = Fin (of_int (y * 12))"
    using y(2,3) by (intro binary64_of_int) simp
  then have "totalMonthsOf ieee_double p = Fin (of_int (y * 12))"
    by (simp add: totalMonthsOf_def y(1))
  moreover have "totalMonthsOf exact p = Fin (of_int (y * 12))"
    by (simp add: totalMonthsOf_def y(1))
  ultimately show ?thesis using y(2,3) by (intro exI[of _ "y * 12"]) simp
qed

section \<open>The example inputs\<close>

lemma scenario_zero_rate_fields [simp]:
  "initialCapital scenario_zero_rate = Fin 1000"
  "monthlyContribution scenario_zero_rate = Fin 100"
  "grossAnnualReturn scenario_zero_rate = Fin 0"
  "annualFee scenario_zero_rate = Fin 0"
  "annualInflation scenario_zero_rate = Fin 0"
  "years scenario_zero_rate = Fin 2"
  by (simp_all add: scenario_zero_rate_def)

lemma scenario_inflation_fields [simp]:
  "initialCapital scenario_inflation = Fin 1000"
  "monthlyContribution scenario_inflation = Fin 100"
  "grossAnnualReturn scenario_inflation = Fin 0"
  "annualFee scenario_inflation = Fin 0"
  "annualInflation scenario_inflation = Fin 2"
  "years scenario_inflation = Fin 2"
  by (simp_all add: scenario_inflation_def)

lemma scenario_doubling_fields [simp]:
  "initialCapital scenario_doubling = Fin 1"
  "monthlyContribution scenario_doubling = Fin 1"
  "grossAnnualReturn scenario_doubling = Fin 409500"
  "annualFee scenario_doubling = Fin 0"
  "annualInflation scenario_doubling = Fin 0"
  "years scenario_doubling = Fin 1"
  by (simp_all add: scenario_doubling_def)

lemma scenario_nothing_invested_fields [simp]:
  "initialCapital scenario_nothing_invested = Fin 0"
  "monthlyContribution scenario_nothing_invested = Fin 0"
  "grossAnnualReturn scenario_nothing_invested = Fin 0"
  "annualFee scenario_nothing_invested = Fin 0"
  "annualInflation scenario_nothing_invested = Fin 2"
  "years scenario_nothing_invested = Fin 2"
  by (simp_all add: scenario_nothing_invested_def)

lemma scenario_negative_years_fields [simp]:
  "initialCapital scenario_negative_years = Fin 1"
  "monthlyContribution scenario_negative_years = Fin 1"
  "grossAnnualReturn scenario_negative_years = Fin (- 100)"
  "annualFee scenario_negative_years = Fin 0"
  "annualInflation scenario_negative_years = Fin 0"
  "years scenario_negative_years = Fin (- 1)"
  by (simp_all add: scenario_negative_years_def)

lemma scenario_withdrawn_years_fields [simp]:
  "initialCapital scenario_withdrawn_years = Fin 0"
  "monthlyContribution scenario_withdrawn_years = Fin 1"
  "grossAnnualReturn scenario_withdrawn_years = Fin 0"
  "annualFee scenario_withdrawn_years = Fin 0"
  "annualInflation scenario_withdrawn_years = Fin 0"
  "years scenario_withdrawn_years = Fin (- 1)"
  by (simp_all add: scenario_withdrawn_years_def)

lemma scenario_large_capital_fields [simp]:
  "initialCapital scenario_large_capital = Fin (2 ^ 60)"
  "monthlyContribution scenario_large_capital = Fin 1"
  "grossAnnualReturn scenario_large_capital = Fin (- 100)"
  "annualFee scenario_large_capital = Fin 0"
  "annualInflation scenario_large_capital = Fin 0"
  "years scenario_large_capital = Fin 1"
  by (simp_all add: scenario_large_capital_def)

lemma scenario_tiny_inflation_fields [simp]:
  "initialCapital scenario_tiny_inflation = Fin 0"
  "monthlyContribution scenario_tiny_inflation = Fin 1"
  "grossAnnualReturn scenario_tiny_inflation = Fin (- 100)"
  "annualFee scenario_tiny_inflation = Fin 0"
  "annualInflation scenario_tiny_inflation = Fin (100 / 2 ^ 60)"
  "years scenario_tiny_inflation = Fin 1"
  by (simp_all add: scenario_tiny_inflation_def)

lemma scenario_extreme_fee_fields [simp]:
  "initialCapital scenario_extreme_fee = Fin 0"
  "monthlyContribution scenario_extreme_fee = Fin 1"
  "grossAnnualReturn scenario_extreme_fee = Fin (- (100 * 2 ^ 1000))"
  "annualFee scenario_extreme_fee = Fin (100 * 2 ^ 1000)"
  "annualInflation scenario_extreme_fee = Fin 0"
  "years scenario_extreme_fee = Fin 1"
  by (simp_all add: scenario_extreme_fee_def)

lemma monthlyRateOf_double_zero:
  "grossAnnualReturn p = Fin 0 \<Longrightarrow> annualFee p = Fin 0 \<Longrightarrow> monthlyRateOf ieee_double p = Fin 0"
  by (simp add: monthlyRateOf_def calculateNetAnnualReturn_def calculateMonthlyRate_def js_sub_def
      binary64_twelfth)

lemma monthlyRateOf_double_total_loss:
  "grossAnnualReturn p = Fin (- 100) \<Longrightarrow> annualFee p = Fin 0 \<Longrightarrow>
     monthlyRateOf ieee_double p = Fin (- 1)"
  by (simp add: monthlyRateOf_def calculateNetAnnualReturn_def calculateMonthlyRate_def js_sub_def)

lemma totalMonths_double [simp]:
  "totalMonthsOf ieee_double scenario_inflation = Fin 24"
  "totalMonthsOf ieee_double scenario_negative_years = Fin (- 12)"
  "totalMonthsOf ieee_double scenario_extreme_fee = Fin 12"
  by (simp_all add: totalMonthsOf_def)

lemma monthlyRate_zero_inflation [simp]: "monthlyRateOf exact scenario_inflation = Fin 0"
  by (simp add: monthlyRateOf_def calculateMonthlyRate_def
      calculateNetAnnualReturn_def js_sub_def exact_pow_def is_integral_def)

lemma totalMonths_inflation [simp]: "totalMonthsOf exact scenario_inflation = Fin 24"
  by (simp add: totalMonthsOf_def)

lemma formula_inflation:
  "futureValueFormula exact (Fin 1000) (Fin 100) (Fin 0) (Fin 24) = Fin 3400"
  by (simp add: futureValueFormula_def Let_def)

lemma futureValue_inflation:
  assumes "generateMonthlySeries exact scenario_inflation = Some res"
  shows "futureValue (summary res) = Fin 3400"
  using generateMonthlySeries_Some(4)[OF assms]
  by (simp add: formula_inflation chooseFutureValue_def)

lemma formula_inflation_double:
  "futureValueFormula ieee_double (Fin 1000) (Fin 100) (Fin 0) (Fin 24) = Fin 3400"
  by (simp add: futureValueFormula_def Let_def binary64_threshold[simplified])



lemma formula_negative_years_double:
  "futureValueFormula ieee_double (Fin 1) (Fin 1) (Fin (- 1)) (Fin (- 12)) = NaN"
  by (simp add: futureValueFormula_def js_sub_def inf_of_def Let_def binary64_threshold[simplified])

lemma negative_years_double:
  "\<exists>res. generateMonthlySeries ieee_double scenario_negative_years = Some res \<and>
     series res = [] \<and> futureValue (summary res) = Fin 1"
proof -
  have n: "totalMonthsOf ieee_double scenario_negative_years = Fin (- 12)"
    by (simp add: totalMonthsOf_def)
  then obtain res where res: "generateMonthlySeries ieee_double scenario_negative_years = Some res"
    using generateMonthlySeries_total[of ieee_double scenario_negative_years] by auto
  have rows: "series res = []" using series_not_entered[OF res] by (simp add: n)
  have "futureValueFormula ieee_double (Fin 1) (Fin 1) (Fin (- 1)) (Fin (- 12)) = NaN"
    by (simp add: futureValueFormula_def js_sub_def inf_of_def Let_def binary64_threshold[simplified])
  then have "futureValue (summary res) = Fin 1"
    using generateMonthlySeries_Some(4)[OF res] rows
    by (simp add: n monthlyRateOf_double_total_loss chooseFutureValue_def)
  with res rows show ?thesis by blast
qed

lemma monthlyRate_large_capital: "monthlyRateOf ieee_double scenario_large_capital = Fin (- 1)"
  by (simp add: monthlyRateOf_def calculateNetAnnualReturn_def calculateMonthlyRate_def js_sub_def)

lemma totalMonths_large_capital: "totalMonthsOf ieee_double scenario_large_capital = Fin 12"
  by (simp add: totalMonthsOf_def)

lemma contributed_large_capital:
  "contributedAfter ieee_double (Fin (2 ^ 60)) (Fin 1) k = Fin (2 ^ 60)"
  by (induction k) (simp_all add: binary64_large_capital[simplified])

lemma balance_large_capital:
  "0 < k \<Longrightarrow> balanceAfter ieee_double (Fin (2 ^ 60)) (Fin 1) (Fin (- 1)) k = Fin 1"
proof (induction k)
  case (Suc k)
  then show ?case by (cases k) simp_all
qed simp

lemma entry_large_capital:
  "0 < k \<Longrightarrow> seriesEntry ieee_double (Fin (2 ^ 60)) (Fin 1) (Fin (- 1)) k =
     \<lparr>month = int k, totalContributed = Fin (2 ^ 60), interestAccumulated = Fin (- (2 ^ 60)),
      totalValue = Fin 1\<rparr>"
  by (simp add: seriesEntry_def contributed_large_capital[simplified]
      balance_large_capital[simplified] js_sub_def binary64_large_loss[simplified])

lemma series_large_capital:
  "\<exists>res. generateMonthlySeries ieee_double scenario_large_capital = Some res \<and>
     series res = map (seriesEntry ieee_double (Fin (2 ^ 60)) (Fin 1) (Fin (- 1))) [1..<13]"
proof -
  have "representable ieee_double (initialCapital scenario_large_capital)"
    by (simp add: representable_def binary64_capital[simplified])
  moreover have "totalMonthsOf ieee_double scenario_large_capital = Fin (of_int 12)"
    by (simp add: totalMonths_large_capital)
  ultimately show ?thesis
    using series_finite_months[OF sound_rounding_ieee_double, of scenario_large_capital 12]
    by (simp add: monthlyRate_large_capital)
qed

lemma monthlyRate_extreme_fee: "monthlyRateOf ieee_double scenario_extreme_fee = PInf"
proof -
  have "binary64 (2 ^ 1000 * 2 ^ 1000) = PInf" by (rule binary64_overflow) simp
  then have "calculateNetAnnualReturn ieee_double (Fin (- (100 * 2 ^ 1000))) (Fin (100 * 2 ^ 1000))
               = PInf"
    by (simp add: calculateNetAnnualReturn_def js_sub_def binary64_power_1000[simplified]
        binary64_one_minus_power_1000[simplified])
  then show ?thesis
    by (simp add: monthlyRateOf_def calculateMonthlyRate_def js_sub_def
        binary64_twelfth[simplified])
qed

lemma balance_extreme_fee:
  "0 < k \<Longrightarrow> balanceAfter ieee_double (Fin 0) (Fin 1) PInf k = NaN"
proof (induction k)
  case (Suc k)
  then show ?case by (cases k) simp_all
qed simp

lemma formula_extreme_fee:
  "futureValueFormula ieee_double (Fin 0) (Fin 1) PInf (Fin 12) = NaN"
  by (simp add: futureValueFormula_def Let_def)

lemma series_extreme_fee:
  assumes "generateMonthlySeries ieee_double scenario_extreme_fee = Some res"
  shows "map totalValue (series res) = replicate 12 NaN"
proof -
  have "representable ieee_double (initialCapital scenario_extreme_fee)" by simp
  from series_finite_months[OF sound_rounding_ieee_double this, of 12] assms
  have rows: "series res = map (seriesEntry ieee_double (Fin 0) (Fin 1) PInf) [1..<13]"
    by (auto simp: monthlyRate_extreme_fee)
  have "map (totalValue \<circ> seriesEntry ieee_double (Fin 0) (Fin 1) PInf) [1..<13]
          = replicate (length [1..<13::nat]) NaN"
    by (rule map_constant) (simp add: seriesEntry_def balance_extreme_fee)
  then show ?thesis by (simp add: rows)
qed

lemma scenario_underflow_fields [simp]:
  "initialCapital scenario_underflow = Fin (2 ^ 1000)"
  "monthlyContribution scenario_underflow = Fin 0"
  "grossAnnualReturn scenario_underflow = Fin (- 100 + 100 / 2 ^ 24)"
  "annualFee scenario_underflow = Fin 0"
  "annualInflation scenario_underflow = Fin 0"
  "years scenario_underflow = Fin 50"
  by (simp_all add: scenario_underflow_def)

lemma scenario_quarter_fields [simp]:
  "initialCapital scenario_quarter = Fin 1000"
  "monthlyContribution scenario_quarter = Fin 100"
  "grossAnnualReturn scenario_quarter = Fin (- 100 + 100 / 2 ^ 24)"
  "annualFee scenario_quarter = Fin 0"
  "annualInflation scenario_quarter = Fin 0"
  "years scenario_quarter = Fin 1"
  by (simp_all add: scenario_quarter_def)

lemma scenario_high_inflation_fields [simp]:
  "initialCapital scenario_high_inflation = Fin 1000"
  "monthlyContribution scenario_high_inflation = Fin 200"
  "grossAnnualReturn scenario_high_inflation = Fin 5"
  "annualFee scenario_high_inflation = Fin (1 / 2)"
  "annualInflation scenario_high_inflation = Fin 15"
  "years scenario_high_inflation = Fin 5"
  by (simp_all add: scenario_high_inflation_def)

lemma scenario_subnormal_fields [simp]:
  "initialCapital scenario_subnormal = Fin (1 / 2 ^ 1074)"
  "monthlyContribution scenario_subnormal = Fin 0"
  "grossAnnualReturn scenario_subnormal = Fin 0"
  "annualFee scenario_subnormal = Fin 0"
  "annualInflation scenario_subnormal = Fin 2"
  "years scenario_subnormal = Fin 2"
  by (simp_all add: scenario_subnormal_def)








lemma monthlyRate_high_inflation:
  "\<exists>r. monthlyRateOf ieee_double scenario_high_inflation = Fin r \<and> 1 / 1024 \<le> r \<and> r \<le> 1 / 16"
proof -
  let ?e = "6004799503160661 / 2 ^ 56 :: real"
  obtain x where x: "binary64 (5 / 100) = Fin x" "1 / 32 \<le> x" "x \<le> 1 / 16"
    using binary64_sandwich[of "1 / 32" "5 / 100" "1 / 16"] binary64_thirty_second(1)
      binary64_dyadic(1) by auto
  obtain gF where gF: "binary64 (1 + x) = Fin gF" "33 / 32 \<le> gF" "gF \<le> 17 / 16"
    using binary64_sandwich[of "33 / 32" "1 + x" "17 / 16"] x(2,3) binary64_dyadic(2,3) by auto
  obtain y where y: "binary64 (1 / 2 / 100) = Fin y" "1 / 256 \<le> y" "y \<le> 1 / 128"
    using binary64_sandwich[of "1 / 256" "1 / 2 / 100" "1 / 128"] binary64_dyadic(4,5) by auto
  obtain fF where fF: "binary64 (1 - y) = Fin fF" "127 / 128 \<le> fF" "fF \<le> 1"
    using binary64_sandwich[of "127 / 128" "1 - y" 1] y(2,3) binary64_dyadic(6) by auto
  have "33 / 32 * (127 / 128) \<le> gF * fF" using gF(2) fF(2) by (intro mult_mono) simp_all
  moreover have "gF * fF \<le> 17 / 16 * 1" using gF(2,3) fF(2,3) by (intro mult_mono) simp_all
  ultimately obtain pr where pr: "binary64 (gF * fF) = Fin pr" "4191 / 4096 \<le> pr" "pr \<le> 17 / 16"
    using binary64_sandwich[of "4191 / 4096" "gF * fF" "17 / 16"] binary64_dyadic(3,7) by auto
  obtain net where net: "binary64 (pr - 1) = Fin net" "95 / 4096 \<le> net" "net \<le> 1 / 16"
    using binary64_sandwich[of "95 / 4096" "pr - 1" "1 / 16"] pr(2,3) binary64_dyadic(1,8) by auto
  obtain b where b: "binary64 (1 + net) = Fin b" "4191 / 4096 \<le> b" "b \<le> 17 / 16"
    using binary64_sandwich[of "4191 / 4096" "1 + net" "17 / 16"] net(2,3) binary64_dyadic(3,7)
    by auto
  obtain pw where pw: "binary64 (b powr ?e) = Fin pw" "1025 / 1024 \<le> pw" "pw \<le> 17 / 16"
    using binary64_sandwich[of "1025 / 1024" "b powr ?e" "17 / 16"]
      twelfth_root_between[OF b(2,3)] binary64_dyadic(3,9) by auto
  obtain r where r: "binary64 (pw - 1) = Fin r" "1 / 1024 \<le> r" "r \<le> 1 / 16"
    using binary64_sandwich[of "1 / 1024" "pw - 1" "1 / 16"] pw(2,3) binary64_dyadic(1,10) by auto
  have "calculateNetAnnualReturn ieee_double (Fin 5) (Fin (1 / 2)) = Fin net"
    using x(1) gF(1) y(1) fF(1) pr(1) net(1)
    by (simp add: calculateNetAnnualReturn_def js_sub_def)
  moreover have "calculateMonthlyRate ieee_double (Fin net) = Fin r"
    using b pw(1) r(1) binary64_twelfth not_integral_twelfth_double
    by (simp add: calculateMonthlyRate_def js_sub_def ieee_double_def exact_pow_def)
  ultimately have "monthlyRateOf ieee_double scenario_high_inflation = Fin r"
    by (simp add: monthlyRateOf_def)
  with r(2,3) show ?thesis by blast
qed

lemma futureValue_high_inflation:
  "\<exists>res v. generateMonthlySeries ieee_double scenario_high_inflation = Some res \<and>
     futureValue (summary res) = Fin v \<and> 1 / 2 ^ 1022 \<le> v"
proof -
  obtain r where r: "monthlyRateOf ieee_double scenario_high_inflation = Fin r"
    "1 / 1024 \<le> r" "r \<le> 1 / 16"
    using monthlyRate_high_inflation by blast
  have n: "totalMonthsOf ieee_double scenario_high_inflation = Fin (of_int 60)"
    by (simp add: totalMonthsOf_def)
  have size: "sized (1 / 2 ^ 300) (2 ^ 300) (1000 :: real)" "sized (1 / 2 ^ 300) (2 ^ 300) (200 :: real)"
    by (simp_all add: sized_def)
  have "1 / 10 ^ 12 \<le> \<bar>r\<bar>" using r(2) by simp
  then have rate: "\<not> js_lt (js_abs (Fin r)) (rnd ieee_double (1 / 10 ^ 12))"
    by (rule threshold_double)
  have "1 ^ nat 60 \<le> (1 + r) ^ nat 60" using r(2) by (intro power_mono) simp_all
  then have lo: "1 / 2 ^ 300 \<le> (1 + r) ^ nat 60" by simp
  have "(1 + r) ^ nat 60 \<le> 2 ^ nat 60" using r(2,3) by (intro power_mono) simp_all
  also have "\<dots> \<le> (2 ^ 300 :: real)" by simp
  finally have hi: "(1 + r) ^ nat 60 \<le> 2 ^ 300" .
  from closed_form_close[OF accurate_ieee_double _ _ _ _ _ size n _ _ r(1) rate lo hi]
  show ?thesis by auto
qed

lemma inflationFactor_subnormal:
  "\<exists>k. inflationFactorOf ieee_double scenario_subnormal = Fin k \<and> 1 \<le> k \<and> k \<le> 1089 / 1024"
proof -
  have reps: "binary64 (1 / 64) = Fin (1 / 64)" "binary64 (65 / 64) = Fin (65 / 64)"
    "binary64 (1089 / 1024) = Fin (1089 / 1024)"
    using scaled_integer_representable[of 1 "- 6" "1 / 64"]
      scaled_integer_representable[of 65 "- 6" "65 / 64"]
      scaled_integer_representable[of 1089 "- 10" "1089 / 1024"]
    by (simp_all add: power_int_minus)
  obtain x where x: "binary64 (2 / 100) = Fin x" "1 / 64 \<le> x" "x \<le> 1 / 32"
    using binary64_sandwich[of "1 / 64" "2 / 100" "1 / 32"] reps(1) binary64_thirty_second(1)
    by auto
  obtain b where b: "binary64 (1 + x) = Fin b" "65 / 64 \<le> b" "b \<le> 33 / 32"
    using binary64_sandwich[of "65 / 64" "1 + x" "33 / 32"] x(2,3) reps(2) binary64_dyadic(2)
    by auto
  have "1 ^ 2 \<le> b ^ 2" using b(2) by (intro power_mono) simp_all
  moreover have "b ^ 2 \<le> (33 / 32) ^ 2" using b(2,3) by (intro power_mono) simp_all
  ultimately obtain k where k: "binary64 (b ^ 2) = Fin k" "1 \<le> k" "k \<le> 1089 / 1024"
    using binary64_sandwich[of 1 "b ^ 2" "1089 / 1024"] reps(3) by (auto simp: power_divide)
  have "inflationFactorOf ieee_double scenario_subnormal = Fin k"
    using x(1) b k(1) by (simp add: inflationFactorOf_def ieee_double_def)
  with k(2,3) show ?thesis by blast
qed

section \<open>The claims\<close>

subsection \<open>The monthly series\<close>

text \<open>
  Claim C1. For every valid input the series has exactly \<open>totalMonths\<close> entries, where
  \<open>totalMonths = round (years * 12)\<close>, in the order of the months 1, ..., \<open>totalMonths\<close>,
  and entry \<open>k\<close> is the entry of the recurrence: the balance starts at the initial capital,
  is multiplied each month by \<open>1 + monthlyRate\<close> and then increased by the contribution,
  as is the contributed total; with \<open>totalMonths = 0\<close> the series is empty. It holds in
  every arithmetic with a sound rounding, for every input whose initial capital is a Number
  and whose \<open>years * 12\<close> is finite, as it is for every valid input
  (\<open>valid_input_months\<close>). The code skips the multiplication when the rate is zero;
  multiplying by \<open>1 + 0\<close> changes nothing.
\<close>

theorem series_follows_recurrence:
  assumes "sound_rounding ar" and "representable ar (initialCapital p)"
      and "js_round (js_mul ar (years p) (Fin 12)) = Fin (of_int n)"
  shows "\<exists>res. generateMonthlySeries ar p = Some res \<and>
           totalMonths (summary res) = Fin (of_int n) \<and>
           length (series res) = nat n \<and>
           series res = map (seriesEntry ar (initialCapital p) (monthlyContribution p)
                               (monthlyRate (summary res))) [1..<Suc (nat n)] \<and>
           (n = 0 \<longrightarrow> series res = [])"
proof -
  have n: "totalMonthsOf ar p = Fin (of_int n)"
    using assms(3) by (simp add: totalMonthsOf_def)
  from series_finite_months[OF assms(1,2) n] obtain res where
    res: "generateMonthlySeries ar p = Some res"
      "series res = map (seriesEntry ar (initialCapital p) (monthlyContribution p)
                           (monthlyRateOf ar p)) [1..<Suc (nat n)]"
    by blast
  have "monthlyRate (summary res) = monthlyRateOf ar p"
    and "totalMonths (summary res) = totalMonthsOf ar p"
    using generateMonthlySeries_Some[OF res(1)] by simp_all
  with res n show ?thesis by simp
qed

theorem series_follows_recurrence_witness:
  "\<exists>res. generateMonthlySeries ieee_double scenario_zero_rate = Some res \<and>
     totalMonths (summary res) = Fin 24 \<and> monthlyRate (summary res) = Fin 0 \<and>
     length (series res) = 24 \<and>
     series res = map (seriesEntry ieee_double (Fin 1000) (Fin 100) (Fin 0)) [1..<25]"
proof -
  obtain res where res: "generateMonthlySeries ieee_double scenario_zero_rate = Some res"
    and rest: "totalMonths (summary res) = Fin (of_int 24)" "length (series res) = nat 24"
      "series res = map (seriesEntry ieee_double (initialCapital scenario_zero_rate)
         (monthlyContribution scenario_zero_rate) (monthlyRate (summary res))) [1..<Suc (nat 24)]"
    using series_follows_recurrence[of ieee_double scenario_zero_rate 24]
    by (auto simp: sound_rounding_ieee_double)
  have "monthlyRate (summary res) = Fin 0"
    using generateMonthlySeries_Some(2)[OF res] by (simp add: monthlyRateOf_double_zero)
  with res rest show ?thesis by simp
qed

text \<open>
  Claim C4, as stated: in every entry \<open>totalValue = totalContributed + interestAccumulated\<close>
  holds exactly. In double precision it does not. With an initial capital of \<open>2 ^ 60\<close>, a
  contribution of 1 and a total loss each month (gross return \<open>-100\<close>), in every one of the
  12 entries the balance is 1, the contributed total is \<open>2 ^ 60\<close> (adding 1 to it is lost in
  rounding) and the interest is \<open>1 - 2 ^ 60\<close> rounded, that is \<open>- 2 ^ 60\<close>: the two parts
  add up to 0, not to 1.
\<close>

theorem value_differs_from_parts:
  "map_option (map totalValue \<circ> series) (generateMonthlySeries ieee_double scenario_large_capital)
     = Some (replicate 12 (Fin 1)) \<and>
   map_option (map totalContributed \<circ> series)
       (generateMonthlySeries ieee_double scenario_large_capital)
     = Some (replicate 12 (Fin (2 ^ 60))) \<and>
   map_option (map interestAccumulated \<circ> series)
       (generateMonthlySeries ieee_double scenario_large_capital)
     = Some (replicate 12 (Fin (- (2 ^ 60)))) \<and>
   js_add ieee_double (Fin (2 ^ 60)) (Fin (- (2 ^ 60))) = Fin 0"
proof -
  let ?f = "seriesEntry ieee_double (Fin (2 ^ 60)) (Fin 1) (Fin (- 1))"
  obtain res where res: "generateMonthlySeries ieee_double scenario_large_capital = Some res"
    and rows: "series res = map ?f [1..<13]"
    using series_large_capital by blast
  have "map (totalValue \<circ> ?f) [1..<13] = replicate (length [1..<13::nat]) (Fin 1)"
    by (rule map_constant) (simp add: entry_large_capital[simplified])
  moreover have "map (totalContributed \<circ> ?f) [1..<13] = replicate (length [1..<13::nat]) (Fin (2 ^ 60))"
    by (rule map_constant) (simp add: entry_large_capital[simplified])
  moreover have "map (interestAccumulated \<circ> ?f) [1..<13]
      = replicate (length [1..<13::nat]) (Fin (- (2 ^ 60)))"
    by (rule map_constant) (simp add: entry_large_capital[simplified])
  ultimately show ?thesis
    by (simp add: res rows)
qed

text \<open>
  Claim C4, amended: in every entry \<open>interestAccumulated\<close> is the arithmetic's difference
  \<open>totalValue - totalContributed\<close>; so \<open>totalValue = totalContributed + interestAccumulated\<close>
  holds exactly whenever both values are finite and their difference is a Number of the
  arithmetic, which is always so in exact arithmetic (\<open>entries_exact\<close>) and not in
  double precision.
\<close>

theorem interest_is_rounded_difference:
  assumes "totalMonthsOf ar p \<noteq> PInf"
  shows "\<exists>res. generateMonthlySeries ar p = Some res \<and>
           (\<forall>e \<in> set (series res).
              interestAccumulated e = js_sub ar (totalValue e) (totalContributed e) \<and>
              (\<forall>b t. totalValue e = Fin b \<and> totalContributed e = Fin t \<and>
                     rnd ar (b - t) = Fin (b - t) \<longrightarrow>
                     (\<exists>i. interestAccumulated e = Fin i \<and> b = t + i)))"
proof -
  from generateMonthlySeries_total[OF assms] obtain res where
    res: "generateMonthlySeries ar p = Some res" by blast
  have diff: "\<forall>e \<in> set (series res).
                interestAccumulated e = js_sub ar (totalValue e) (totalContributed e)"
    using generateMonthlySeries_Some(1)[OF res] monthLoop_rows by blast
  have "\<exists>i. interestAccumulated e = Fin i \<and> b = t + i"
    if "e \<in> set (series res)" "totalValue e = Fin b" "totalContributed e = Fin t"
      "rnd ar (b - t) = Fin (b - t)" for e b t
    using diff that by (simp add: js_sub_def)
  with res diff show ?thesis by blast
qed

theorem interest_is_rounded_difference_witness:
  "\<exists>res. generateMonthlySeries exact scenario_doubling = Some res \<and>
     length (series res) = 12 \<and>
     list_all (\<lambda>e. \<exists>b t i. totalValue e = Fin b \<and> totalContributed e = Fin t \<and>
                     interestAccumulated e = Fin i \<and> b = t + i) (series res)"
proof -
  have "totalMonthsOf exact scenario_doubling \<noteq> PInf" by (simp add: totalMonthsOf_def)
  from interest_is_rounded_difference[OF this] obtain res where
    res: "generateMonthlySeries exact scenario_doubling = Some res"
    and split: "\<forall>e \<in> set (series res).
       interestAccumulated e = js_sub exact (totalValue e) (totalContributed e) \<and>
       (\<forall>b t. totalValue e = Fin b \<and> totalContributed e = Fin t \<and>
              rnd exact (b - t) = Fin (b - t) \<longrightarrow>
              (\<exists>i. interestAccumulated e = Fin i \<and> b = t + i))"
    by blast
  obtain res' where res': "generateMonthlySeries exact scenario_doubling = Some res'"
    and fin: "\<forall>e \<in> set (series res'). \<exists>b t i. totalValue e = Fin b \<and> totalContributed e = Fin t \<and>
                interestAccumulated e = Fin i \<and> b = t + i"
    using entries_exact[of scenario_doubling 1 1 409500 0 1] by auto
  have len: "length (series res) = 12"
    using series_finite_months[of exact scenario_doubling 12] res
    by (auto simp: sound_rounding_exact totalMonthsOf_def)
  have "\<exists>b t i. totalValue e = Fin b \<and> totalContributed e = Fin t \<and>
          interestAccumulated e = Fin i \<and> b = t + i" if mem: "e \<in> set (series res)" for e
  proof -
    have "res' = res" using res res' by simp
    then obtain b t where bt: "totalValue e = Fin b" "totalContributed e = Fin t"
      using fin mem by blast
    moreover have "rnd exact (b - t) = Fin (b - t)" by simp
    ultimately obtain i where "interestAccumulated e = Fin i" "b = t + i"
      using split mem by blast
    with bt show ?thesis by blast
  qed
  with res len show ?thesis by (auto simp: list_all_iff)
qed

subsection \<open>The rates\<close>

text \<open>
  Claim C5. \<^verbatim>\<open>calculateMonthlyRate\<close> returns exactly \<open>-1\<close> when \<open>1 + netAnnualRate \<le> 0\<close>
  and \<open>(1 + netAnnualRate) ^ (1 / 12) - 1\<close> otherwise, in every arithmetic; in exact
  arithmetic that is the real number \<open>(1 + x) powr (1 / 12) - 1\<close>. The result is \<open>-1\<close> if and
  only if \<open>netAnnualRate \<le> -1\<close> (infinities and NaN included), in exact arithmetic and,
  for every Number of that arithmetic, in double precision.
\<close>

theorem monthlyRate_formula:
  "calculateMonthlyRate ar v =
     (if js_le (js_add ar (Fin 1) v) (Fin 0) then Fin (- 1)
      else js_sub ar (js_pow ar (js_add ar (Fin 1) v) (js_div ar (Fin 1) (Fin 12))) (Fin 1)) \<and>
   calculateMonthlyRate exact (Fin x) =
     (if 1 + x \<le> 0 then Fin (- 1) else Fin ((1 + x) powr (1 / 12) - 1)) \<and>
   (calculateMonthlyRate exact v = Fin (- 1)) = js_le v (Fin (- 1)) \<and>
   (representable ieee_double v \<longrightarrow>
      (calculateMonthlyRate ieee_double v = Fin (- 1)) = js_le v (Fin (- 1)))"
proof -
  have "(1 + x \<le> 0) = (x \<le> - 1)" by auto
  then show ?thesis
    using monthlyRate_total_loss_double[of v]
    by (simp add: calculateMonthlyRate_exact calculateMonthlyRate_exact_total_loss)
       (simp add: calculateMonthlyRate_def)
qed

theorem monthlyRate_formula_witness:
  "representable ieee_double (Fin (- 2)) \<and> representable ieee_double (Fin 0) \<and>
   calculateMonthlyRate ieee_double (Fin (- 2)) = Fin (- 1) \<and>
   calculateMonthlyRate ieee_double (Fin 0) \<noteq> Fin (- 1)"
proof -
  have r: "representable ieee_double (Fin (- 2))" "representable ieee_double (Fin 0)"
    using binary64_of_int[of "- 2"] by (simp_all add: representable_def)
  have "(calculateMonthlyRate ieee_double (Fin (- 2)) = Fin (- 1)) = js_le (Fin (- 2)) (Fin (- 1))"
    using monthlyRate_formula[of ieee_double "Fin (- 2)" 0] r(1) by blast
  moreover have "(calculateMonthlyRate ieee_double (Fin 0) = Fin (- 1)) = js_le (Fin 0) (Fin (- 1))"
    using monthlyRate_formula[of ieee_double "Fin 0" 0] r(2) by blast
  ultimately show ?thesis
    using r by simp
qed

text \<open>
  Claim C6. \<^verbatim>\<open>calculateNetAnnualReturn\<close> returns
  \<open>(1 + grossAnnualRate / 100) * (1 - annualFeeRate / 100) - 1\<close>: the operations of the
  arithmetic in that order, on every pair of Numbers, and for finite reals in exact
  arithmetic that real number. The function is total: it has a value on every input, and
  a finite one there.
\<close>

theorem netAnnualReturn_formula:
  "calculateNetAnnualReturn ar g f =
     js_sub ar (js_mul ar (js_add ar (Fin 1) (js_div ar g (Fin 100)))
                  (js_sub ar (Fin 1) (js_div ar f (Fin 100)))) (Fin 1) \<and>
   calculateNetAnnualReturn exact (Fin x) (Fin y) = Fin ((1 + x / 100) * (1 - y / 100) - 1)"
  by (simp add: calculateNetAnnualReturn_exact) (simp add: calculateNetAnnualReturn_def)

subsection \<open>The future value\<close>

text \<open>
  Claim C2, as stated: for every input, \<open>summary.futureValue\<close> is the closed form,
  \<open>P + c * n\<close> when \<open>\<bar>r\<bar> < 1e-12\<close> and \<open>P * (1 + r) ^ n + c * (((1 + r) ^ n - 1) / r)\<close>
  otherwise. It fails where the closed form is not a finite number. In double precision,
  with a total loss (\<open>r = -1\<close>) and \<open>years = -1\<close> the growth factor is \<open>0 ^ (-12) = +\<infinity>\<close>,
  the closed form is \<open>+\<infinity> + (-\<infinity>)\<close>, that is NaN, and the future value is the initial
  capital 1.
\<close>

theorem futureValue_not_closed_form:
  "monthlyRateOf ieee_double scenario_negative_years = Fin (- 1) \<and>
   totalMonthsOf ieee_double scenario_negative_years = Fin (- 12) \<and>
   js_lt (js_abs (Fin (- 1))) (rnd ieee_double (1 / 10 ^ 12)) = False \<and>
   js_add ieee_double
     (js_mul ieee_double (Fin 1)
        (js_pow ieee_double (js_add ieee_double (Fin 1) (Fin (- 1))) (Fin (- 12))))
     (js_mul ieee_double (Fin 1)
        (js_div ieee_double
           (js_sub ieee_double
              (js_pow ieee_double (js_add ieee_double (Fin 1) (Fin (- 1))) (Fin (- 12))) (Fin 1))
           (Fin (- 1)))) = NaN \<and>
   futureValueOf ieee_double scenario_negative_years = Some (Fin 1)"
proof -
  have "futureValueOf ieee_double scenario_negative_years = Some (Fin 1)"
    using negative_years_double by (auto simp: futureValueOf_def)
  then show ?thesis
    by (simp add: monthlyRateOf_double_total_loss totalMonthsOf_def js_sub_def inf_of_def
        binary64_threshold[simplified])
qed

text \<open>
  Claim C2, amended: whenever the closed form is a finite number, \<open>summary.futureValue\<close>
  is that number: \<open>P + c * n\<close> when \<open>\<bar>r\<bar> < 1e-12\<close>, otherwise
  \<open>P * (1 + r) ^ n + c * (((1 + r) ^ n - 1) / r)\<close>; and for \<open>r = 0\<close> it is \<open>P + c * n\<close>.
  The operations are those of the arithmetic, whichever it is; in exact arithmetic the
  value is the real number of \<open>futureValueFormula_exact\<close>.
\<close>

theorem futureValue_closed_form:
  assumes "totalMonthsOf ar p \<noteq> PInf"
      and "isFinite (futureValueFormula ar (initialCapital p) (monthlyContribution p)
                       (monthlyRateOf ar p) (totalMonthsOf ar p))"
  shows "\<exists>res. generateMonthlySeries ar p = Some res \<and>
           (let r = monthlyRate (summary res); n = totalMonths (summary res);
                growthFactor = js_pow ar (js_add ar (Fin 1) r) n
            in futureValue (summary res) =
                 (if js_lt (js_abs r) (rnd ar (1 / 10 ^ 12))
                  then js_add ar (initialCapital p) (js_mul ar (monthlyContribution p) n)
                  else js_add ar (js_mul ar (initialCapital p) growthFactor)
                         (js_mul ar (monthlyContribution p)
                            (js_div ar (js_sub ar growthFactor (Fin 1)) r))) \<and>
               (r = Fin 0 \<and> js_lt (Fin 0) (rnd ar (1 / 10 ^ 12)) \<longrightarrow>
                  futureValue (summary res) =
                    js_add ar (initialCapital p) (js_mul ar (monthlyContribution p) n)))"
proof -
  from generateMonthlySeries_total[OF assms(1)] obtain res where
    res: "generateMonthlySeries ar p = Some res" by blast
  have "futureValue (summary res) =
          futureValueFormula ar (initialCapital p) (monthlyContribution p)
            (monthlyRateOf ar p) (totalMonthsOf ar p)"
    using generateMonthlySeries_Some(4)[OF res] assms(2) by (simp add: chooseFutureValue_def)
  then show ?thesis
    using generateMonthlySeries_Some(2,3)[OF res] res
    by (auto simp: futureValueFormula_def Let_def)
qed

theorem futureValue_closed_form_witness:
  "\<exists>res. generateMonthlySeries ieee_double scenario_inflation = Some res \<and>
     monthlyRate (summary res) = Fin 0 \<and> totalMonths (summary res) = Fin 24 \<and>
     futureValue (summary res) = Fin 3400"
proof -
  have r: "monthlyRateOf ieee_double scenario_inflation = Fin 0"
    by (simp add: monthlyRateOf_double_zero)
  have "totalMonthsOf ieee_double scenario_inflation \<noteq> PInf" by simp
  moreover have "isFinite (futureValueFormula ieee_double (initialCapital scenario_inflation)
      (monthlyContribution scenario_inflation) (monthlyRateOf ieee_double scenario_inflation)
      (totalMonthsOf ieee_double scenario_inflation))"
    by (simp add: r formula_inflation_double)
  ultimately obtain res where
    res: "generateMonthlySeries ieee_double scenario_inflation = Some res"
    and fv: "let r = monthlyRate (summary res); n = totalMonths (summary res);
                growthFactor = js_pow ieee_double (js_add ieee_double (Fin 1) r) n
            in futureValue (summary res) =
                 (if js_lt (js_abs r) (rnd ieee_double (1 / 10 ^ 12))
                  then js_add ieee_double (initialCapital scenario_inflation)
                         (js_mul ieee_double (monthlyContribution scenario_inflation) n)
                  else js_add ieee_double
                         (js_mul ieee_double (initialCapital scenario_inflation) growthFactor)
                         (js_mul ieee_double (monthlyContribution scenario_inflation)
                            (js_div ieee_double (js_sub ieee_double growthFactor (Fin 1)) r))) \<and>
               (r = Fin 0 \<and> js_lt (Fin 0) (rnd ieee_double (1 / 10 ^ 12)) \<longrightarrow>
                  futureValue (summary res) =
                    js_add ieee_double (initialCapital scenario_inflation)
                      (js_mul ieee_double (monthlyContribution scenario_inflation) n))"
    using futureValue_closed_form[of ieee_double scenario_inflation] by blast
  have rn: "monthlyRate (summary res) = Fin 0" "totalMonths (summary res) = Fin 24"
    using generateMonthlySeries_Some(2,3)[OF res] by (simp_all add: r)
  have "futureValue (summary res) = Fin 3400"
    using fv by (simp add: rn Let_def binary64_threshold[simplified])
  with res rn show ?thesis by blast
qed




text \<open>
  Claim C9. When the closed form is not a finite number the future value is the
  \<open>totalValue\<close> of the last entry of the series, or the initial capital when the series
  is empty; when it is finite it is used unchanged. The function returns whenever
  the month count is not \<open>+\<infinity>\<close> (\<open>generateMonthlySeries_diverges\<close> otherwise). The three
  branches are taken in double precision: the initial capital with a negative duration
  (closed form NaN, no entry), the last entry with a fee that overflows the net rate
  (closed form NaN, 12 entries), the closed form itself with the plain input.
\<close>

theorem futureValue_fallback:
  assumes "totalMonthsOf ar p \<noteq> PInf"
  shows "\<exists>res. generateMonthlySeries ar p = Some res \<and>
           futureValue (summary res) =
             (let formula = futureValueFormula ar (initialCapital p) (monthlyContribution p)
                              (monthlyRate (summary res)) (totalMonths (summary res))
              in if isFinite formula then formula
                 else if series res \<noteq> [] then totalValue (last (series res))
                 else initialCapital p)"
proof -
  from generateMonthlySeries_total[OF assms] obtain res where
    res: "generateMonthlySeries ar p = Some res" by blast
  show ?thesis
    using generateMonthlySeries_Some(2,3,4)[OF res] res
    by (simp add: chooseFutureValue_last Let_def)
qed

theorem futureValue_fallback_witness:
  "(\<exists>res. generateMonthlySeries ieee_double scenario_negative_years = Some res \<and>
      series res = [] \<and> futureValue (summary res) = Fin 1) \<and>
   (\<exists>res. generateMonthlySeries ieee_double scenario_extreme_fee = Some res \<and>
      length (series res) = 12 \<and> totalValue (last (series res)) = NaN \<and>
      futureValue (summary res) = NaN) \<and>
   (\<exists>res. generateMonthlySeries ieee_double scenario_inflation = Some res \<and>
      futureValue (summary res) = Fin 3400)"
proof -
  have a: "\<exists>res. generateMonthlySeries ieee_double scenario_negative_years = Some res \<and>
      series res = [] \<and> futureValue (summary res) = Fin 1"
  proof -
    have "totalMonthsOf ieee_double scenario_negative_years \<noteq> PInf" by simp
    from futureValue_fallback[OF this] obtain res where
      res: "generateMonthlySeries ieee_double scenario_negative_years = Some res"
      and fv: "futureValue (summary res) =
        (let formula = futureValueFormula ieee_double (initialCapital scenario_negative_years)
                         (monthlyContribution scenario_negative_years)
                         (monthlyRate (summary res)) (totalMonths (summary res))
         in if isFinite formula then formula
            else if series res \<noteq> [] then totalValue (last (series res))
            else initialCapital scenario_negative_years)"
      by blast
    have rn: "monthlyRate (summary res) = Fin (- 1)" "totalMonths (summary res) = Fin (- 12)"
      using generateMonthlySeries_Some(2,3)[OF res]
      by (simp_all add: monthlyRateOf_double_total_loss)
    have rows: "series res = []" using series_not_entered[OF res] by simp
    have "futureValue (summary res) = Fin 1"
      using fv by (simp add: rn rows formula_negative_years_double)
    with res rows show ?thesis by blast
  qed
  have b: "\<exists>res. generateMonthlySeries ieee_double scenario_extreme_fee = Some res \<and>
      length (series res) = 12 \<and> totalValue (last (series res)) = NaN \<and>
      futureValue (summary res) = NaN"
  proof -
    have "totalMonthsOf ieee_double scenario_extreme_fee \<noteq> PInf" by simp
    from futureValue_fallback[OF this] obtain res where
      res: "generateMonthlySeries ieee_double scenario_extreme_fee = Some res"
      and fv: "futureValue (summary res) =
        (let formula = futureValueFormula ieee_double (initialCapital scenario_extreme_fee)
                         (monthlyContribution scenario_extreme_fee)
                         (monthlyRate (summary res)) (totalMonths (summary res))
         in if isFinite formula then formula
            else if series res \<noteq> [] then totalValue (last (series res))
            else initialCapital scenario_extreme_fee)"
      by blast
    have rn: "monthlyRate (summary res) = PInf" "totalMonths (summary res) = Fin 12"
      using generateMonthlySeries_Some(2,3)[OF res] by (simp_all add: monthlyRate_extreme_fee)
    have vals: "map totalValue (series res) = replicate 12 NaN"
      by (rule series_extreme_fee[OF res])
    then have len: "length (series res) = 12" by (metis length_map length_replicate)
    then have ne: "series res \<noteq> []" by auto
    have "last (map totalValue (series res)) = NaN" unfolding vals by simp
    then have last: "totalValue (last (series res)) = NaN" using ne by (simp add: last_map)
    have "futureValue (summary res) = NaN"
      using fv ne last by (simp add: rn formula_extreme_fee)
    with res len last show ?thesis by blast
  qed
  have c: "\<exists>res. generateMonthlySeries ieee_double scenario_inflation = Some res \<and>
      futureValue (summary res) = Fin 3400"
  proof -
    have "totalMonthsOf ieee_double scenario_inflation \<noteq> PInf" by simp
    from futureValue_fallback[OF this] obtain res where
      res: "generateMonthlySeries ieee_double scenario_inflation = Some res"
      and fv: "futureValue (summary res) =
        (let formula = futureValueFormula ieee_double (initialCapital scenario_inflation)
                         (monthlyContribution scenario_inflation)
                         (monthlyRate (summary res)) (totalMonths (summary res))
         in if isFinite formula then formula
            else if series res \<noteq> [] then totalValue (last (series res))
            else initialCapital scenario_inflation)"
      by blast
    have rn: "monthlyRate (summary res) = Fin 0" "totalMonths (summary res) = Fin 24"
      using generateMonthlySeries_Some(2,3)[OF res] by (simp_all add: monthlyRateOf_double_zero)
    have "futureValue (summary res) = Fin 3400"
      using fv by (simp add: rn formula_inflation_double)
    with res show ?thesis by blast
  qed
  from a b c show ?thesis by blast
qed

text \<open>
  Claim C10, as stated: for every input with \<open>initialCapital \<ge> 0\<close> and
  \<open>monthlyContribution \<ge> 0\<close> every \<open>totalValue\<close> and the future value are \<open>\<ge> 0\<close>. With a
  negative duration the closed form takes the contributions back: in double precision no
  capital, a contribution of 1, no return and \<open>years = -1\<close> give the future value
  \<open>0 + 1 * (-12)\<close>.
\<close>

theorem negative_future_value:
  "initialCapital scenario_withdrawn_years = Fin 0 \<and>
   monthlyContribution scenario_withdrawn_years = Fin 1 \<and>
   futureValueOf ieee_double scenario_withdrawn_years = Some (Fin (- 12)) \<and>
   js_le (Fin 0) (Fin (- 12)) = False"
proof -
  have n: "totalMonthsOf ieee_double scenario_withdrawn_years = Fin (- 12)"
    by (simp add: totalMonthsOf_def)
  then obtain res where res: "generateMonthlySeries ieee_double scenario_withdrawn_years = Some res"
    using generateMonthlySeries_total[of ieee_double scenario_withdrawn_years] by auto
  have "futureValueFormula ieee_double (Fin 0) (Fin 1) (Fin 0) (Fin (- 12)) = Fin (- 12)"
    by (simp add: futureValueFormula_def Let_def binary64_threshold[simplified])
  then have "futureValue (summary res) = Fin (- 12)"
    using futureValue_finite_formula[OF res] by (simp add: n monthlyRateOf_double_zero)
  with res show ?thesis by (simp add: futureValueOf_def)
qed

text \<open>
  Claim C10, amended: in every ordered arithmetic, exact or double precision, for every
  input whose \<open>initialCapital \<ge> 0\<close> and \<open>monthlyContribution \<ge> 0\<close> are Numbers, whose month
  count is a finite integer \<open>\<ge> 0\<close> and whose growth factor \<open>1 + monthlyRate\<close> is finite, the
  monthly rate is \<open>\<ge> -1\<close>, every \<open>totalValue\<close> of the series is \<open>\<ge> 0\<close> and the future
  value is \<open>\<ge> 0\<close>.
\<close>

theorem values_nonnegative:
  assumes "ordered_arith ar"
      and "initialCapital p = Fin P" "0 \<le> P" "representable ar (Fin P)"
      and "monthlyContribution p = Fin c" "0 \<le> c" "representable ar (Fin c)"
      and "totalMonthsOf ar p = Fin (of_int n)" "0 \<le> n"
      and "js_add ar (Fin 1) (monthlyRateOf ar p) = Fin g"
  shows "\<exists>res. generateMonthlySeries ar p = Some res \<and>
           js_le (Fin (- 1)) (monthlyRate (summary res)) \<and>
           (\<forall>e \<in> set (series res). js_le (Fin 0) (totalValue e)) \<and>
           js_le (Fin 0) (futureValue (summary res))"
proof -
  have sound: "sound_rounding ar" using assms(1) by (simp add: ordered_arith_def)
  obtain x where x: "monthlyRateOf ar p = Fin x" and g: "rnd ar (1 + x) = Fin g"
    using js_add_finite[OF assms(10)] by auto
  have x1: "- 1 \<le> x"
    using calculateMonthlyRate_lower[OF assms(1)] x by (simp add: monthlyRateOf_def)
  have g0: "0 \<le> g" using x1 by (intro rnd_nonneg_value[OF assms(1) _ g]) simp
  have P: "representable ar (initialCapital p)" using assms(2,4) by simp
  obtain res where res: "generateMonthlySeries ar p = Some res"
    and rows: "series res = map (seriesEntry ar (Fin P) (Fin c) (Fin x)) [1..<Suc (nat n)]"
    using series_finite_months[OF sound P assms(8)] by (auto simp: assms(2,5) x)
  have rate: "js_le (Fin (- 1)) (monthlyRate (summary res))"
    using generateMonthlySeries_Some(2)[OF res] x x1 by simp
  note bal = balanceAfter_nonneg[OF assms(1,3,6,7) assms(10)[unfolded x] g0]
  have entries: "\<forall>e \<in> set (series res). js_le (Fin 0) (totalValue e)"
  proof
    fix e assume "e \<in> set (series res)"
    then obtain k where "e = seriesEntry ar (Fin P) (Fin c) (Fin x) k"
      unfolding rows by auto
    then show "js_le (Fin 0) (totalValue e)"
      using bal[of k] by (simp add: seriesEntry_def)
  qed
  let ?formula = "futureValueFormula ar (Fin P) (Fin c) (Fin x) (Fin (of_int n))"
  have fv: "futureValue (summary res) = chooseFutureValue ?formula (series res) (Fin P)"
    using generateMonthlySeries_Some(4)[OF res] by (simp add: assms(2,5,8) x)
  have "js_le (Fin 0) (futureValue (summary res))"
  proof (cases ?formula)
    case (Fin v)
    then have "0 \<le> v" by (rule futureValueFormula_nonneg[OF assms(1,3,6) x1 assms(9)])
    then show ?thesis by (simp add: fv Fin chooseFutureValue_def)
  next
    case PInf
    then show ?thesis
      using entries assms(3) by (auto simp: fv chooseFutureValue_last)
  next
    case NInf
    then show ?thesis
      using entries assms(3) by (auto simp: fv chooseFutureValue_last)
  next
    case NaN
    then show ?thesis
      using entries assms(3) by (auto simp: fv chooseFutureValue_last)
  qed
  with res rate entries show ?thesis by blast
qed

theorem values_nonnegative_witness:
  "\<exists>res. generateMonthlySeries ieee_double scenario_inflation = Some res \<and>
     length (series res) = 24 \<and>
     js_le (Fin (- 1)) (monthlyRate (summary res)) \<and>
     list_all (\<lambda>e. js_le (Fin 0) (totalValue e)) (series res) \<and>
     js_le (Fin 0) (futureValue (summary res))"
proof -
  have n: "totalMonthsOf ieee_double scenario_inflation = Fin (of_int 24)"
    by (simp add: totalMonthsOf_def)
  have r: "js_add ieee_double (Fin 1) (monthlyRateOf ieee_double scenario_inflation) = Fin 1"
    by (simp add: monthlyRateOf_double_zero)
  obtain res where res: "generateMonthlySeries ieee_double scenario_inflation = Some res"
    and ok: "js_le (Fin (- 1)) (monthlyRate (summary res))"
      "\<forall>e \<in> set (series res). js_le (Fin 0) (totalValue e)"
      "js_le (Fin 0) (futureValue (summary res))"
    using values_nonnegative[OF ordered_arith_ieee_double _ _ _ _ _ _ n _ r, of 1000 100]
    by auto
  have "length (series res) = 24"
    using series_finite_months[OF sound_rounding_ieee_double _ n] res by auto
  with res ok show ?thesis by (auto simp: list_all_iff)
qed

text \<open>
  The growth factor has to be finite. In double precision a gross return of
  \<open>- (100 * 2 ^ 1000)\<close> with a fee of \<open>100 * 2 ^ 1000\<close>, an input the form accepts, makes
  the net rate overflow to \<open>+\<infinity>\<close>; with no capital the first balance is \<open>0 * \<infinity>\<close>, and every
  \<open>totalValue\<close> and the future value are NaN.
\<close>

lemma nan_balance_in_double_precision:
  "\<exists>res. validateInputs scenario_extreme_fee = [] \<and>
     generateMonthlySeries ieee_double scenario_extreme_fee = Some res \<and>
     monthlyRate (summary res) = PInf \<and>
     map totalValue (series res) = replicate 12 NaN \<and>
     futureValue (summary res) = NaN"
proof -
  have valid: "validateInputs scenario_extreme_fee = []"
    by (simp add: validateInputs_def is_integral_def)
  have n: "totalMonthsOf ieee_double scenario_extreme_fee = Fin (of_int 12)"
    by (simp add: totalMonthsOf_def)
  have "representable ieee_double (initialCapital scenario_extreme_fee)"
    by (simp add: representable_def)
  from series_finite_months[OF sound_rounding_ieee_double this n] obtain res where
    res: "generateMonthlySeries ieee_double scenario_extreme_fee = Some res"
    and rows: "series res = map (seriesEntry ieee_double (Fin 0) (Fin 1) PInf) [1..<13]"
    by (auto simp: monthlyRate_extreme_fee)
  have r: "monthlyRate (summary res) = PInf"
    using generateMonthlySeries_Some(2)[OF res] by (simp add: monthlyRate_extreme_fee)
  have "map (totalValue \<circ> seriesEntry ieee_double (Fin 0) (Fin 1) PInf) [1..<13]
          = replicate (length [1..<13::nat]) NaN"
    by (rule map_constant) (simp add: seriesEntry_def balance_extreme_fee)
  then have vals: "map totalValue (series res) = replicate 12 NaN"
    by (simp add: rows)
  have "last (map totalValue (series res)) = NaN" unfolding vals by simp
  moreover have ne: "series res \<noteq> []" using vals by auto
  ultimately have last: "totalValue (last (series res)) = NaN" by (simp add: last_map)
  have "futureValueFormula ieee_double (Fin 0) (Fin 1) PInf (Fin 12) = NaN"
    by (simp add: futureValueFormula_def Let_def)
  then have "futureValue (summary res) = NaN"
    using generateMonthlySeries_Some(4)[OF res] n last ne
    by (simp add: monthlyRate_extreme_fee chooseFutureValue_last)
  with valid res r vals show ?thesis by blast
qed

subsection \<open>The real value\<close>

text \<open>
  Claim C8. \<open>summary.futureValueReal\<close> is the future value divided by
  \<open>inflationFactor = (1 + annualInflation / 100) ^ years\<close> when that factor is not zero,
  and the future value unchanged when it is zero.
\<close>

theorem futureValueReal_deflated:
  assumes "totalMonthsOf ar p \<noteq> PInf"
  shows "\<exists>res. generateMonthlySeries ar p = Some res \<and>
           futureValueReal (summary res) =
             (let inflationFactor =
                    js_pow ar (js_add ar (Fin 1) (js_div ar (annualInflation p) (Fin 100))) (years p)
              in if inflationFactor = Fin 0 then futureValue (summary res)
                 else js_div ar (futureValue (summary res)) inflationFactor)"
proof -
  from generateMonthlySeries_total[OF assms] obtain res where
    res: "generateMonthlySeries ar p = Some res" by blast
  show ?thesis
    using generateMonthlySeries_Some(5)[OF res] res
    by (auto simp: inflationFactorOf_def js_neq_def Let_def)
qed

theorem futureValueReal_deflated_witness:
  "\<exists>res. generateMonthlySeries exact scenario_inflation = Some res \<and>
     futureValue (summary res) = Fin 3400 \<and>
     futureValueReal (summary res) = Fin (3400 / (102 / 100) ^ 2)"
proof -
  have "totalMonthsOf exact scenario_inflation \<noteq> PInf" by simp
  from futureValueReal_deflated[OF this] obtain res where
    res: "generateMonthlySeries exact scenario_inflation = Some res"
    and real: "futureValueReal (summary res) =
      (let inflationFactor = js_pow exact (js_add exact (Fin 1)
             (js_div exact (annualInflation scenario_inflation) (Fin 100)))
             (years scenario_inflation)
       in if inflationFactor = Fin 0 then futureValue (summary res)
          else js_div exact (futureValue (summary res)) inflationFactor)"
    by blast
  have "futureValueReal (summary res) = Fin (3400 / (102 / 100) ^ 2)"
    using real by (simp add: futureValue_inflation[OF res])
  with res futureValue_inflation[OF res] show ?thesis by blast
qed

text \<open>
  Claim C7, as stated: for every valid input with \<open>annualInflation > 0\<close> and \<open>years > 0\<close>,
  \<open>futureValueReal < futureValue\<close> strictly. With nothing invested (no capital, no
  contribution), an input the form accepts, both are 0.
\<close>

theorem real_value_not_below_nominal:
  "validateInputs scenario_nothing_invested = [] \<and>
   futureValueOf ieee_double scenario_nothing_invested = Some (Fin 0) \<and>
   futureValueRealOf ieee_double scenario_nothing_invested = Some (Fin 0) \<and>
   js_lt (Fin 0) (Fin 0) = False"
proof -
  have valid: "validateInputs scenario_nothing_invested = []"
    by (simp add: validateInputs_def is_integral_def)
  have n: "totalMonthsOf ieee_double scenario_nothing_invested = Fin 24"
    by (simp add: totalMonthsOf_def)
  then obtain res where res: "generateMonthlySeries ieee_double scenario_nothing_invested = Some res"
    using generateMonthlySeries_total[of ieee_double scenario_nothing_invested] by auto
  have "futureValueFormula ieee_double (Fin 0) (Fin 0) (Fin 0) (Fin 24) = Fin 0"
    by (simp add: futureValueFormula_def Let_def binary64_threshold[simplified])
  then have fv: "futureValue (summary res) = Fin 0"
    using futureValue_finite_formula[OF res] by (simp add: n monthlyRateOf_double_zero)
  have k: "js_le (Fin 1) (inflationFactorOf ieee_double scenario_nothing_invested)"
    by (rule inflationFactor_ge_one[OF ordered_arith_ieee_double, of _ 2 2]) simp_all
  have "futureValueReal (summary res) = Fin 0"
    using generateMonthlySeries_Some(5)[OF res] fv k
    by (cases "inflationFactorOf ieee_double scenario_nothing_invested")
       (auto simp: js_neq_def)
  with valid res fv show ?thesis by (simp add: futureValueOf_def futureValueRealOf_def)
qed

text \<open>
  Claim C7, amended: for every input with finite \<open>annualInflation > 0\<close> and \<open>years > 0\<close>,
  \<open>futureValueReal \<le> futureValue\<close> in every ordered arithmetic when the future value is
  finite and \<open>\<ge> 0\<close>, and \<open>futureValueReal < futureValue\<close> strictly

  \<^item> in exact arithmetic, when the future value is positive;
  \<^item> in every ordered arithmetic that rounds as double precision does, whatever its
    \<open>Math.pow\<close>, when the future value is at least \<open>2 powi -1022\<close> (not subnormal) and the
    inflation factor is a Number greater than 1;
  \<^item> in double precision with its correctly rounded \<open>Math.pow\<close>, when the future value is at
    least \<open>2 powi -1022\<close>, \<open>annualInflation \<ge> 100 / 2 ^ 52\<close> and \<open>years \<ge> 1\<close>.

  The last part gives the assertion of the quick tests of \<^verbatim>\<open>src/app.js\<close> (lines 529-545):
  with a capital of 1000, a contribution of 200, a gross return of 5, a fee of 0.5, an
  inflation of 15 and 5 years, the real value is below the nominal one.
\<close>

theorem real_value_below_nominal:
  assumes "ordered_arith ar" "representable ar (initialCapital p)"
      and "annualInflation p = Fin i" "0 < i" "years p = Fin y" "0 < y"
      and "totalMonthsOf ar p \<noteq> PInf"
  shows "\<exists>res. generateMonthlySeries ar p = Some res \<and>
           (\<forall>v. futureValue (summary res) = Fin v \<and> 0 \<le> v \<longrightarrow>
                js_le (futureValueReal (summary res)) (Fin v)) \<and>
           (\<forall>v. ar = exact \<and> futureValue (summary res) = Fin v \<and> 0 < v \<longrightarrow>
                js_lt (futureValueReal (summary res)) (Fin v)) \<and>
           (\<forall>v. rnd ar = binary64 \<and> representable ar (inflationFactorOf ar p) \<and>
                js_lt (Fin 1) (inflationFactorOf ar p) \<and>
                futureValue (summary res) = Fin v \<and> 1 / 2 ^ 1022 \<le> v \<longrightarrow>
                js_lt (futureValueReal (summary res)) (Fin v)) \<and>
           (\<forall>v. ar = ieee_double \<and> 100 / 2 ^ 52 \<le> i \<and> 1 \<le> y \<and>
                futureValue (summary res) = Fin v \<and> 1 / 2 ^ 1022 \<le> v \<longrightarrow>
                js_lt (futureValueReal (summary res)) (Fin v))"
proof -
  have sound: "sound_rounding ar" using assms(1) by (simp add: ordered_arith_def)
  from generateMonthlySeries_total[OF assms(7)] obtain res where
    res: "generateMonthlySeries ar p = Some res" by blast
  have k1: "js_le (Fin 1) (inflationFactorOf ar p)"
    using assms(4) by (intro inflationFactor_ge_one[OF assms(1,3) _ assms(5,6)]) simp
  then have k0: "js_neq (inflationFactorOf ar p) (Fin 0)"
    by (cases "inflationFactorOf ar p") (simp_all add: js_neq_def)
  have real: "futureValueReal (summary res)
                = js_div ar (futureValue (summary res)) (inflationFactorOf ar p)"
    using generateMonthlySeries_Some(5)[OF res] k0 by simp
  have rv: "rnd ar v = Fin v" if "futureValue (summary res) = Fin v" for v
    using futureValue_representable[OF sound assms(2) res] that by (simp add: representable_def)
  have le: "js_le (futureValueReal (summary res)) (Fin v)"
    if v: "futureValue (summary res) = Fin v" "0 \<le> v" for v
  proof -
    from k1 consider k where "inflationFactorOf ar p = Fin k" "1 \<le> k"
      | "inflationFactorOf ar p = PInf"
      by (cases "inflationFactorOf ar p") auto
    then show ?thesis
    proof cases
      case (1 k)
      have "v \<le> k * v" using mult_right_mono[of 1 k v] v(2) 1(2) by simp
      then have "v / k \<le> v" using 1(2) by (simp add: field_simps)
      then have "js_le (rnd ar (v / k)) (rnd ar v)" by (rule ordered_rnd(1)[OF assms(1)])
      then show ?thesis using 1 by (simp add: real v(1) rv[OF v(1)])
    next
      case 2
      then show ?thesis using v(2) by (simp add: real v(1))
    qed
  qed
  have lt: "js_lt (futureValueReal (summary res)) (Fin v)"
    if v: "ar = exact" "futureValue (summary res) = Fin v" "0 < v" for v
  proof -
    obtain k where k: "inflationFactorOf exact p = Fin k" "1 < k"
      using inflationFactor_exact_gt_one[OF assms(3-6)] by blast
    have "v / k < v" "k \<noteq> 0" using v(3) k(2) by (simp_all add: field_simps)
    then show ?thesis using k(1) by (simp add: real v(1,2))
  qed
  have double: "js_lt (futureValueReal (summary res)) (Fin v)"
    if v: "rnd ar = binary64" "representable ar (inflationFactorOf ar p)"
      "js_lt (Fin 1) (inflationFactorOf ar p)" "futureValue (summary res) = Fin v"
      "1 / 2 ^ 1022 \<le> v" for v
  proof -
    have v0: "0 < v"
    proof -
      have "(0::real) < 1 / 2 ^ 1022" by simp
      with v(5) show ?thesis by linarith
    qed
    from v(3) consider k where "inflationFactorOf ar p = Fin k" "1 < k"
      | "inflationFactorOf ar p = PInf"
      by (cases "inflationFactorOf ar p") auto
    then show ?thesis
    proof cases
      case (1 k)
      have "binary64 k = Fin k" using v(1,2) 1(1) by (simp add: representable_def)
      then have "1 + 1 / 2 ^ 52 \<le> k" using 1(2) by (rule double_above_one)
      moreover have "binary64 v = Fin v" using rv[OF v(4)] v(1) by simp
      ultimately obtain w where "binary64 (v / k) = Fin w" "w < v"
        using quotient_rounds_below[OF _ v(5)] by blast
      then show ?thesis using 1 by (simp add: real v(1,4))
    next
      case 2
      then show ?thesis using v0 by (simp add: real v(4))
    qed
  qed
  have input: "js_lt (futureValueReal (summary res)) (Fin v)"
    if v: "ar = ieee_double" "100 / 2 ^ 52 \<le> i" "1 \<le> y" "futureValue (summary res) = Fin v"
      "1 / 2 ^ 1022 \<le> v" for v
  proof -
    have "js_le (Fin (1 + 1 / 2 ^ 52)) (inflationFactorOf ar p)"
      unfolding v(1) using assms(3) v(2) assms(5) v(3) by (rule inflationFactor_double_gt_one)
    then have "js_lt (Fin 1) (inflationFactorOf ar p)"
      by (cases "inflationFactorOf ar p") simp_all
    moreover have "representable ar (inflationFactorOf ar p)"
      unfolding v(1) inflationFactorOf_def by (rule js_pow_double_representable)
    ultimately show ?thesis using double v by simp
  qed
  from res le lt double input show ?thesis by blast
qed

theorem real_value_below_nominal_witness:
  "(\<exists>res. generateMonthlySeries exact scenario_inflation = Some res \<and>
      futureValue (summary res) = Fin 3400 \<and>
      js_lt (futureValueReal (summary res)) (futureValue (summary res))) \<and>
   (\<exists>res. generateMonthlySeries ieee_double scenario_inflation = Some res \<and>
      futureValue (summary res) = Fin 3400 \<and>
      js_lt (futureValueReal (summary res)) (futureValue (summary res))) \<and>
   (\<exists>res. generateMonthlySeries ieee_double scenario_high_inflation = Some res \<and>
      js_lt (futureValueReal (summary res)) (futureValue (summary res)))"
proof -
  have a: "\<exists>res. generateMonthlySeries exact scenario_inflation = Some res \<and>
      futureValue (summary res) = Fin 3400 \<and>
      js_lt (futureValueReal (summary res)) (futureValue (summary res))"
  proof -
    obtain res where res: "generateMonthlySeries exact scenario_inflation = Some res"
      and lt: "\<forall>v. exact = exact \<and> futureValue (summary res) = Fin v \<and> 0 < v \<longrightarrow>
                  js_lt (futureValueReal (summary res)) (Fin v)"
      using real_value_below_nominal[OF ordered_arith_exact, of scenario_inflation 2 2] by auto
    have "futureValue (summary res) = Fin 3400" by (rule futureValue_inflation[OF res])
    with res lt show ?thesis by auto
  qed
  have b: "\<exists>res. generateMonthlySeries ieee_double scenario_inflation = Some res \<and>
      futureValue (summary res) = Fin 3400 \<and>
      js_lt (futureValueReal (summary res)) (futureValue (summary res))"
  proof -
    obtain res where res: "generateMonthlySeries ieee_double scenario_inflation = Some res"
      and lt: "\<forall>v. ieee_double = ieee_double \<and> 100 / 2 ^ 52 \<le> (2::real) \<and> 1 \<le> (2::real) \<and>
                  futureValue (summary res) = Fin v \<and> 1 / 2 ^ 1022 \<le> v \<longrightarrow>
                  js_lt (futureValueReal (summary res)) (Fin v)"
      using real_value_below_nominal[OF ordered_arith_ieee_double, of scenario_inflation 2 2]
      by auto
    have "futureValue (summary res) = Fin 3400"
      using futureValue_finite_formula[OF res]
      by (simp add: monthlyRateOf_double_zero formula_inflation_double)
    moreover have "(1::real) / 2 ^ 1022 \<le> 3400" by simp
    moreover have "100 / 2 ^ 52 \<le> (2::real)" by simp
    ultimately show ?thesis using res lt by auto
  qed
  have c: "\<exists>res. generateMonthlySeries ieee_double scenario_high_inflation = Some res \<and>
      js_lt (futureValueReal (summary res)) (futureValue (summary res))"
  proof -
    have n: "totalMonthsOf ieee_double scenario_high_inflation \<noteq> PInf"
      by (simp add: totalMonthsOf_def)
    obtain res where res: "generateMonthlySeries ieee_double scenario_high_inflation = Some res"
      and lt: "\<forall>v. ieee_double = ieee_double \<and> 100 / 2 ^ 52 \<le> (15::real) \<and> 1 \<le> (5::real) \<and>
                  futureValue (summary res) = Fin v \<and> 1 / 2 ^ 1022 \<le> v \<longrightarrow>
                  js_lt (futureValueReal (summary res)) (Fin v)"
      using real_value_below_nominal[OF ordered_arith_ieee_double, of scenario_high_inflation 15 5]
        n by auto
    obtain v where v: "futureValue (summary res) = Fin v" "1 / 2 ^ 1022 \<le> v"
      using futureValue_high_inflation res by auto
    moreover have "100 / 2 ^ 52 \<le> (15::real)" by simp
    ultimately show ?thesis using res lt by auto
  qed
  from a b c show ?thesis by blast
qed

text \<open>
  In double precision the strict inequality can be lost to rounding even for a positive
  future value: with an inflation of \<open>100 / 2 ^ 60\<close> percent, \<open>1 + annualInflation / 100\<close>
  rounds to 1 and the real value is the nominal one.
\<close>

lemma real_value_equal_in_double_precision:
  "\<exists>res. generateMonthlySeries ieee_double scenario_tiny_inflation = Some res \<and>
     futureValue (summary res) = Fin 1 \<and> futureValueReal (summary res) = Fin 1"
proof -
  have r: "monthlyRateOf ieee_double scenario_tiny_inflation = Fin (- 1)"
    by (simp add: monthlyRateOf_def calculateNetAnnualReturn_def calculateMonthlyRate_def js_sub_def)
  have n: "totalMonthsOf ieee_double scenario_tiny_inflation = Fin 12"
    by (simp add: totalMonthsOf_def)
  then obtain res where res: "generateMonthlySeries ieee_double scenario_tiny_inflation = Some res"
    using generateMonthlySeries_total[of ieee_double scenario_tiny_inflation] by auto
  have "futureValueFormula ieee_double (Fin 0) (Fin 1) (Fin (- 1)) (Fin 12) = Fin 1"
    by (simp add: futureValueFormula_def Let_def js_sub_def binary64_threshold[simplified])
  then have fv: "futureValue (summary res) = Fin 1"
    using generateMonthlySeries_Some(4)[OF res] by (simp add: r n chooseFutureValue_def)
  have "inflationFactorOf ieee_double scenario_tiny_inflation = Fin 1"
    by (simp add: inflationFactorOf_def binary64_tiny[simplified] binary64_one_plus_tiny[simplified])
  then have "futureValueReal (summary res) = Fin 1"
    using generateMonthlySeries_Some(5)[OF res] fv by (simp add: js_neq_def)
  with res fv show ?thesis by blast
qed

text \<open>
  So it can for a subnormal future value, whatever the inflation: with a capital of
  \<open>2 powi -1074\<close>, the least positive Number, no contribution and no return, the quotient
  by the inflation factor rounds back to that Number.
\<close>

lemma real_value_equal_for_subnormal:
  "\<exists>res. validateInputs scenario_subnormal = [] \<and>
     generateMonthlySeries ieee_double scenario_subnormal = Some res \<and>
     futureValue (summary res) = Fin (1 / 2 ^ 1074) \<and>
     futureValueReal (summary res) = Fin (1 / 2 ^ 1074)"
proof -
  let ?v = "1 / 2 ^ 1074 :: real"
  have valid: "validateInputs scenario_subnormal = []"
    by (simp add: validateInputs_def is_integral_def)
  have n: "totalMonthsOf ieee_double scenario_subnormal = Fin 24"
    by (simp add: totalMonthsOf_def)
  then obtain res where res: "generateMonthlySeries ieee_double scenario_subnormal = Some res"
    using generateMonthlySeries_total[of ieee_double scenario_subnormal] by auto
  have "futureValueFormula ieee_double (Fin ?v) (Fin 0) (Fin 0) (Fin 24) = Fin ?v"
    using binary64_least by (simp add: futureValueFormula_def Let_def binary64_threshold[simplified])
  then have fv: "futureValue (summary res) = Fin ?v"
    using futureValue_finite_formula[OF res] by (simp add: n monthlyRateOf_double_zero)
  obtain k where k: "inflationFactorOf ieee_double scenario_subnormal = Fin k" "1 \<le> k"
    "k \<le> 1089 / 1024"
    using inflationFactor_subnormal by blast
  have "3 / 4 * ?v \<le> ?v / k"
  proof -
    have "3 / 4 * k \<le> 1" using k(3) by simp
    then have "3 / 4 * k * ?v \<le> 1 * ?v" by (intro mult_right_mono) simp_all
    then show ?thesis using k(2) by (simp add: field_simps)
  qed
  moreover have "?v / k \<le> ?v" using k(2) by (simp add: field_simps)
  ultimately have "js_le (binary64 (3 / 4 * ?v)) (binary64 (?v / k))"
    "js_le (binary64 (?v / k)) (binary64 ?v)"
    by (simp_all only: binary64_mono)
  then have "binary64 (?v / k) = Fin ?v"
    unfolding binary64_least binary64_least_rounds_up by (cases "binary64 (?v / k)") simp_all
  then have "futureValueReal (summary res) = Fin ?v"
    using generateMonthlySeries_Some(5)[OF res] fv k(1,2) by (simp add: js_neq_def)
  with valid res fv show ?thesis by blast
qed

end
